theory Spec2Isabelle
  imports Main "HOL-Library.Word" "HOL-Library.AList"
begin

unbundle bit_operations_syntax

section \<open>Machine types, errors and panics\<close>

text \<open>
  Go's \<open>byte\<close> is an 8-bit word, \<open>uint64\<close> a 64-bit word. An \<open>int64\<close> is kept as the
  same 64 bits (the conversions \<open>uint64(x)\<close> and \<open>int64(x)\<close> do not change them);
  \<open>sint\<close> reads its signed value. Go's \<open>int\<close> (lengths, sizes, bit counts) is modelled
  as an unbounded \<open>int\<close>: the quantities below are far from the 64-bit limit.
\<close>

type_synonym byte = "8 word"
type_synonym uint64 = "64 word"
type_synonym int64 = "64 word"

datatype panic =
    NilPointerDereference
  | NilMapAssignment
  | IndexOutOfRange
  | SliceBoundsOutOfRange
  | MakeSliceLenOutOfRange

datatype error =
    errTooManyChildren
  | errChildIndexTooLarge
  | errExtraSpace
  | ErrUnexpectedEOF
  | ErrFailedToFindNode
  | ErrIO
  | ErrOther
  | Panic panic

section \<open>Disk addresses (raw\_disk.go)\<close>

record diskAddress =
  offset :: int64
  size' :: int64

text \<open>\<open>binary.BigEndian.PutUint64\<close> and \<open>binary.BigEndian.Uint64\<close> of Go's standard library:
  the most significant byte comes first; reading fewer than eight bytes panics.\<close>

definition PutUint64 :: "uint64 \<Rightarrow> byte list" where
  "PutUint64 v =
     [ucast (drop_bit 56 v), ucast (drop_bit 48 v), ucast (drop_bit 40 v),
      ucast (drop_bit 32 v), ucast (drop_bit 24 v), ucast (drop_bit 16 v),
      ucast (drop_bit 8 v), ucast v]"

definition Uint64 :: "byte list \<Rightarrow> error + uint64" where
  "Uint64 b =
     (if length b < 8 then Inl (Panic IndexOutOfRange)
      else Inr (ucast (b ! 7) OR push_bit 8 (ucast (b ! 6)) OR push_bit 16 (ucast (b ! 5))
        OR push_bit 24 (ucast (b ! 4)) OR push_bit 32 (ucast (b ! 3))
        OR push_bit 40 (ucast (b ! 2)) OR push_bit 48 (ucast (b ! 1))
        OR push_bit 56 (ucast (b ! 0))))"

definition "end" :: "diskAddress \<Rightarrow> int64" where
  "end r = offset r + size' r"

definition bytes :: "diskAddress \<Rightarrow> byte list" where
  "bytes r = PutUint64 (offset r) @ PutUint64 (size' r)"

text \<open>\<open>decode\<close> overwrites both fields of its receiver, so the model returns the new
  address. \<open>diskAddressBytes[8:]\<close> is \<open>drop 8\<close>; on fewer than eight bytes the first
  \<open>Uint64\<close> has already panicked.\<close>

definition decode :: "byte list \<Rightarrow> error + diskAddress" where
  "decode diskAddressBytes =
     (case Uint64 diskAddressBytes of
        Inl e \<Rightarrow> Inl e
      | Inr off \<Rightarrow>
          (case Uint64 (drop 8 diskAddressBytes) of
             Inl e \<Rightarrow> Inl e
           | Inr sz \<Rightarrow> Inr \<lparr>offset = off, size' = sz\<rparr>))"

definition diskAddressSize :: int where
  "diskAddressSize = 16"

definition rootKeyDiskAddressOffset :: int where
  "rootKeyDiskAddressOffset = 1"

section \<open>Trie nodes in disk form (raw\_disk.go)\<close>

text \<open>
  A \<open>Key\<close> is the struct the tests build (\<open>Key{length: 0, value: ""}\<close>): a length and
  the packed tokens. \<open>ids.ID\<close> is a 32-byte array, kept as a byte list of length 32.
  \<open>maybe.Maybe[[]byte]\<close> is an option. A Go map has no iteration order: the children of
  a node are an association list with pairwise distinct keys, whose order stands for the
  order in which \<open>range\<close> happens to visit the map.
\<close>

record Key =
  length_k :: int
  value_k :: "byte list"

type_synonym ID = "byte list"

record child =
  compressedKey :: Key
  id' :: ID
  hasValue :: bool

record diskChild =
  child :: child
  address :: diskAddress

record diskBranchNode =
  value_n :: "byte list option"
  children :: "(byte \<times> diskChild) list"

section \<open>The codec helpers, taken as a parameter\<close>

text \<open>
  \<open>codecWriter\<close>, \<open>codecReader\<close>, \<open>uintSize\<close>, \<open>childSize\<close> and \<open>boolLen\<close> belong to a
  file of the package that is not part of the sources at hand. The node codec below takes
  them as a parameter: a writer method gives the bytes it appends to the buffer, a reader
  method consumes a prefix of the remaining bytes and returns the value with the rest, or
  an error.
\<close>

record codec =
  wMaybeBytes :: "byte list option \<Rightarrow> byte list"
  wUvarint :: "uint64 \<Rightarrow> byte list"
  wKey :: "Key \<Rightarrow> byte list"
  wID :: "ID \<Rightarrow> byte list"
  wBool :: "bool \<Rightarrow> byte list"
  rMaybeBytes :: "byte list \<Rightarrow> error + (byte list option \<times> byte list)"
  rUvarint :: "byte list \<Rightarrow> error + (uint64 \<times> byte list)"
  rKey :: "byte list \<Rightarrow> error + (Key \<times> byte list)"
  rID :: "byte list \<Rightarrow> error + (ID \<times> byte list)"
  rBool :: "byte list \<Rightarrow> error + (bool \<times> byte list)"
  uintSize :: "uint64 \<Rightarrow> int"
  childSize :: "byte \<Rightarrow> child \<Rightarrow> int"
  boolLen :: int

text \<open>Modelled from the spec: the constant \<open>BranchFactorLargest\<close>, declared outside the
  sources at hand. A token index is a byte, so the largest branch factor is the number of
  byte values ("any index exceeds the token value range").\<close>

definition BranchFactorLargest :: nat where
  "BranchFactorLargest = 256"

section \<open>encodeDiskBranchNode, encodeDiskBranchNodeSize, decodeDiskBranchNode\<close>

text \<open>
  One child entry as the loop body of \<open>encodeDiskBranchNode\<close> appends it: six writer
  calls in the order of the source.
\<close>

definition encodeEntry :: "codec \<Rightarrow> byte \<Rightarrow> diskChild \<Rightarrow> byte list" where
  "encodeEntry c index entry =
     wUvarint c (ucast index)
     @ wKey c (compressedKey (child entry))
     @ wID c (id' (child entry))
     @ wBool c (hasValue (child entry))
     @ wUvarint c (offset (address entry))
     @ wUvarint c (size' (address entry))"

text \<open>
  The keys are collected in the map's iteration order and sorted (\<open>slices.Sort\<close> on bytes
  is the unsigned order of \<open>8 word\<close>); each entry is then looked up in the map. A key taken
  from the map is always found; \<open>make([]byte, numChildren, BranchFactorLargest)\<close> cannot
  fail either, a map over bytes having at most 256 keys.
\<close>

definition encodeDiskBranchNode :: "codec \<Rightarrow> diskBranchNode \<Rightarrow> byte list" where
  "encodeDiskBranchNode c n =
     (let b = wMaybeBytes c (value_n n);
          numChildren = length (children n);
          b = b @ wUvarint c (of_nat numChildren)
      in if numChildren = 0 then b
         else
           let keys = sort (map fst (children n))
           in foldl (\<lambda>b index.
                 case map_of (children n) index of
                   None \<Rightarrow> b
                 | Some entry \<Rightarrow> b @ encodeEntry c index entry) b keys)"

definition encodeDiskBranchNodeSize :: "codec \<Rightarrow> diskBranchNode \<Rightarrow> int" where
  "encodeDiskBranchNodeSize c n =
     (let size0 = uintSize c (of_nat (length (children n))) + boolLen c;
          size1 = size0 + diskAddressSize * int (length (children n));
          size2 = (case value_n n of
                     Some v \<Rightarrow> size1 + (uintSize c (of_nat (length v)) + int (length v))
                   | None \<Rightarrow> size1)
      in foldl (\<lambda>sz (index, entry). sz + childSize c index (child entry)) size2 (children n))"

text \<open>
  The loop of \<open>decodeDiskBranchNode\<close>: \<open>i\<close> counts the children read so far,
  \<open>previousChild\<close> is the last index, \<open>b\<close> the unread bytes (\<open>r.b\<close>) and \<open>cs\<close> the map
  being filled. \<open>n.children[byte(index)] = ...\<close> is an update of the association list.
\<close>

function decodeChildren ::
  "codec \<Rightarrow> nat \<Rightarrow> nat \<Rightarrow> uint64 \<Rightarrow> byte list \<Rightarrow> (byte \<times> diskChild) list
     \<Rightarrow> error + (byte list \<times> (byte \<times> diskChild) list)" where
  "decodeChildren c numChildren i previousChild b cs =
     (if i < numChildren then
        (case rUvarint c b of
           Inl e \<Rightarrow> Inl e
         | Inr (index, b1) \<Rightarrow>
             if (i \<noteq> 0 \<and> index \<le> previousChild) \<or> index > 255
             then Inl errChildIndexTooLarge
             else
               (case rKey c b1 of
                  Inl e \<Rightarrow> Inl e
                | Inr (compressedKey', b2) \<Rightarrow>
                    (case rID c b2 of
                       Inl e \<Rightarrow> Inl e
                     | Inr (childID, b3) \<Rightarrow>
                         (case rBool c b3 of
                            Inl e \<Rightarrow> Inl e
                          | Inr (hasValue', b4) \<Rightarrow>
                              (case rUvarint c b4 of
                                 Inl e \<Rightarrow> Inl e
                               | Inr (offset', b5) \<Rightarrow>
                                   (case rUvarint c b5 of
                                      Inl e \<Rightarrow> Inl e
                                    | Inr (size'', b6) \<Rightarrow>
                                        decodeChildren c numChildren (i + 1) index b6
                                          (AList.update (ucast index)
                                             \<lparr>child = \<lparr>compressedKey = compressedKey',
                                                       id' = childID,
                                                       hasValue = hasValue'\<rparr>,
                                              address = \<lparr>offset = offset', size' = size''\<rparr>\<rparr>
                                             cs)))))))
      else Inr (b, cs))"
  by pat_completeness auto
termination
  by (relation "measure (\<lambda>(c, numChildren, i, previousChild, b, cs). numChildren - i)") auto

definition decodeDiskBranchNode :: "codec \<Rightarrow> byte list \<Rightarrow> error + diskBranchNode" where
  "decodeDiskBranchNode c b =
     (case rMaybeBytes c b of
        Inl e \<Rightarrow> Inl e
      | Inr (v, b1) \<Rightarrow>
          (case rUvarint c b1 of
             Inl e \<Rightarrow> Inl e
           | Inr (numChildren, b2) \<Rightarrow>
               if numChildren > of_nat BranchFactorLargest then Inl errTooManyChildren
               else
                 (case decodeChildren c (unat numChildren) 0 0 b2 [] of
                    Inl e \<Rightarrow> Inl e
                  | Inr (rest, cs) \<Rightarrow>
                      if length rest \<noteq> 0 then Inl errExtraSpace
                      else Inr \<lparr>value_n = v, children = cs\<rparr>)))"

declare decodeChildren.simps [simp del]

section \<open>The decoder's failure condition, as the specification words it\<close>

text \<open>
  The specification lists when decoding fails: the declared child count exceeds the
  largest branch factor, two emitted indices are not strictly increasing, an index exceeds
  the token range, bytes remain after the declared fields, or a field is truncated (its
  reader reports an error). \<open>MalformedEncoding\<close> says this over the fields read in full,
  without the early exits of the code: \<open>readEntries\<close> reads the declared number of child
  records, six fields each, and checks nothing.
\<close>

definition readEntryFields ::
  "codec \<Rightarrow> byte list \<Rightarrow> error + ((uint64 \<times> diskChild) \<times> byte list)" where
  "readEntryFields c b =
     (case rUvarint c b of
        Inl e \<Rightarrow> Inl e
      | Inr (index, b1) \<Rightarrow>
          (case rKey c b1 of
             Inl e \<Rightarrow> Inl e
           | Inr (ck, b2) \<Rightarrow>
               (case rID c b2 of
                  Inl e \<Rightarrow> Inl e
                | Inr (cid, b3) \<Rightarrow>
                    (case rBool c b3 of
                       Inl e \<Rightarrow> Inl e
                     | Inr (hv, b4) \<Rightarrow>
                         (case rUvarint c b4 of
                            Inl e \<Rightarrow> Inl e
                          | Inr (off, b5) \<Rightarrow>
                              (case rUvarint c b5 of
                                 Inl e \<Rightarrow> Inl e
                               | Inr (sz, b6) \<Rightarrow>
                                   Inr ((index,
                                         \<lparr>child = \<lparr>compressedKey = ck, id' = cid, hasValue = hv\<rparr>,
                                          address = \<lparr>offset = off, size' = sz\<rparr>\<rparr>), b6)))))))"

fun readEntries ::
  "codec \<Rightarrow> nat \<Rightarrow> byte list \<Rightarrow> error + ((uint64 \<times> diskChild) list \<times> byte list)" where
  "readEntries c 0 b = Inr ([], b)"
| "readEntries c (Suc k) b =
     (case readEntryFields c b of
        Inl e \<Rightarrow> Inl e
      | Inr (x, b') \<Rightarrow>
          (case readEntries c k b' of
             Inl e \<Rightarrow> Inl e
           | Inr (xs, rest) \<Rightarrow> Inr (x # xs, rest)))"

definition MalformedEncoding :: "codec \<Rightarrow> byte list \<Rightarrow> bool" where
  "MalformedEncoding c b =
     (case rMaybeBytes c b of
        Inl e \<Rightarrow> True
      | Inr (v, b1) \<Rightarrow>
          (case rUvarint c b1 of
             Inl e \<Rightarrow> True
           | Inr (numChildren, b2) \<Rightarrow>
               unat numChildren > BranchFactorLargest
               \<or> (case readEntries c (unat numChildren) b2 of
                     Inl e \<Rightarrow> True
                   | Inr (es, rest) \<Rightarrow>
                       \<not> sorted_wrt (<) (map fst es)
                       \<or> (\<exists>index \<in> set (map fst es). index > 255)
                       \<or> rest \<noteq> [])))"

text \<open>The indices read so far are acceptable to the loop: strictly increasing, above the
  previous index once one child has been read, and at most 255.\<close>

definition indices_ok :: "bool \<Rightarrow> uint64 \<Rightarrow> uint64 list \<Rightarrow> bool" where
  "indices_ok started prev idxs \<longleftrightarrow>
     sorted_wrt (<) (if started then prev # idxs else idxs) \<and> (\<forall>x \<in> set idxs. x \<le> 255)"

section \<open>Valid nodes and codecs whose readers invert their writers\<close>

text \<open>
  \<open>codecRoundTrip c okKey\<close>: every reader of \<open>c\<close> gives back what the matching writer
  wrote and leaves the bytes after it, for values a Go program can hold (a byte slice
  shorter than \<open>2^64\<close>, a 32-byte id) and for the keys that satisfy \<open>okKey\<close>.
  \<open>validNode okKey n\<close>: the children of \<open>n\<close> form a map (distinct indices; an index is a
  byte, so it fits the token range), and the fields of \<open>n\<close> are such values.
\<close>

definition codecRoundTrip :: "codec \<Rightarrow> (Key \<Rightarrow> bool) \<Rightarrow> bool" where
  "codecRoundTrip c okKey \<longleftrightarrow>
     (\<forall>v rest. (\<forall>bs. v = Some bs \<longrightarrow> length bs < 2 ^ 64)
          \<longrightarrow> rMaybeBytes c (wMaybeBytes c v @ rest) = Inr (v, rest))
     \<and> (\<forall>x rest. rUvarint c (wUvarint c x @ rest) = Inr (x, rest))
     \<and> (\<forall>k rest. okKey k \<longrightarrow> rKey c (wKey c k @ rest) = Inr (k, rest))
     \<and> (\<forall>i rest. length i = 32 \<longrightarrow> rID c (wID c i @ rest) = Inr (i, rest))
     \<and> (\<forall>b rest. rBool c (wBool c b @ rest) = Inr (b, rest))"

definition validNode :: "(Key \<Rightarrow> bool) \<Rightarrow> diskBranchNode \<Rightarrow> bool" where
  "validNode okKey n \<longleftrightarrow>
     (\<forall>bs. value_n n = Some bs \<longrightarrow> length bs < 2 ^ 64)
     \<and> distinct (map fst (children n))
     \<and> (\<forall>(index, entry) \<in> set (children n).
           okKey (compressedKey (child entry)) \<and> length (id' (child entry)) = 32)"

text \<open>
  \<open>sizeHelpersExact c\<close>: the size helpers of \<open>c\<close> give the length of what its writers
  emit (a value's flag, length prefix and bytes; a child's index, key, 32-byte id and
  flag). \<open>addressSlack c entry\<close> is what \<open>diskAddressSize\<close> counts for a child's
  address beyond the two varints that the encoder writes for it.
\<close>

definition sizeHelpersExact :: "codec \<Rightarrow> bool" where
  "sizeHelpersExact c \<longleftrightarrow>
     (\<forall>x. uintSize c x = int (length (wUvarint c x)))
     \<and> (\<forall>b. boolLen c = int (length (wBool c b)))
     \<and> (\<forall>index ch. length (id' ch) = 32 \<longrightarrow>
            childSize c index ch
              = int (length (wUvarint c (ucast index) @ wKey c (compressedKey ch)
                             @ wID c (id' ch) @ wBool c (hasValue ch))))
     \<and> int (length (wMaybeBytes c None)) = boolLen c
     \<and> (\<forall>v. int (length (wMaybeBytes c (Some v)))
            = boolLen c + uintSize c (of_nat (length v)) + int (length v))"

definition addressSlack :: "codec \<Rightarrow> diskChild \<Rightarrow> int" where
  "addressSlack c entry =
     diskAddressSize - int (length (wUvarint c (offset (address entry))))
       - int (length (wUvarint c (size' (address entry))))"

section \<open>A codec modelled from the specification\<close>

text \<open>
  Modelled from the spec: the methods of \<open>codecWriter\<close> and \<open>codecReader\<close> and the size
  helpers \<open>uintSize\<close>, \<open>childSize\<close>, \<open>boolLen\<close>, which are not in the sources at hand.
  The specification's wire format: a value is a presence flag, then a length prefix and
  the raw bytes when present; counts, indices, offsets and sizes are varints (here Go's
  unsigned varint: seven bits per byte, least significant group first, the high bit set on
  every byte but the last); a compressed key is its length and its packed tokens (the
  length counts bits, the tokens fill the bytes needed for them); an id is a fixed 32-byte
  digest; the has-value flag is one byte. A reader fails, with \<open>ErrUnexpectedEOF\<close>, when
  its field is truncated. The size helpers give the exact length of what the writer
  emits, as the specification requires of \<open>sizeOf\<close>.
\<close>

function specUvarintW :: "uint64 \<Rightarrow> byte list" where
  "specUvarintW x =
     (if x \<ge> 0x80 then (ucast x OR 0x80) # specUvarintW (drop_bit 7 x) else [ucast x])"
  by pat_completeness auto
termination
proof (relation "measure unat")
  show "wf (measure unat)" by simp
next
  fix x :: uint64
  assume "0x80 \<le> x"
  then have "128 \<le> unat x" by (simp add: word_le_nat_alt)
  moreover have "unat (drop_bit 7 x) = unat x div 2 ^ 7"
    by (simp only: unat_drop_bit_eq) (simp add: drop_bit_eq_div)
  ultimately show "(drop_bit 7 x, x) \<in> measure unat" by simp
qed

declare specUvarintW.simps [simp del]

fun specUvarintFrom :: "nat \<Rightarrow> uint64 \<Rightarrow> byte list \<Rightarrow> error + (uint64 \<times> byte list)" where
  "specUvarintFrom s x [] = Inl ErrUnexpectedEOF"
| "specUvarintFrom s x (b # bs) =
     (if b < 0x80 then Inr (x OR push_bit s (ucast b), bs)
      else specUvarintFrom (s + 7) (x OR push_bit s (ucast (b AND 0x7f))) bs)"

definition specUvarintR :: "byte list \<Rightarrow> error + (uint64 \<times> byte list)" where
  "specUvarintR b = specUvarintFrom 0 0 b"

definition specBoolW :: "bool \<Rightarrow> byte list" where
  "specBoolW v = (if v then [1] else [0])"

fun specBoolR :: "byte list \<Rightarrow> error + (bool \<times> byte list)" where
  "specBoolR [] = Inl ErrUnexpectedEOF"
| "specBoolR (x # r) = Inr (x \<noteq> 0, r)"

definition specBytesW :: "byte list \<Rightarrow> byte list" where
  "specBytesW v = specUvarintW (of_nat (length v)) @ v"

definition specBytesR :: "byte list \<Rightarrow> error + (byte list \<times> byte list)" where
  "specBytesR b =
     (case specUvarintR b of
        Inl e \<Rightarrow> Inl e
      | Inr (len, r) \<Rightarrow>
          if unat len > length r then Inl ErrUnexpectedEOF
          else Inr (take (unat len) r, drop (unat len) r))"

definition specMaybeBytesW :: "byte list option \<Rightarrow> byte list" where
  "specMaybeBytesW v =
     (case v of None \<Rightarrow> specBoolW False | Some bs \<Rightarrow> specBoolW True @ specBytesW bs)"

definition specMaybeBytesR :: "byte list \<Rightarrow> error + (byte list option \<times> byte list)" where
  "specMaybeBytesR b =
     (case specBoolR b of
        Inl e \<Rightarrow> Inl e
      | Inr (present, r) \<Rightarrow>
          if \<not> present then Inr (None, r)
          else (case specBytesR r of
                  Inl e \<Rightarrow> Inl e
                | Inr (bs, r') \<Rightarrow> Inr (Some bs, r')))"

definition bytesNeeded :: "nat \<Rightarrow> nat" where
  "bytesNeeded bits = (bits + 7) div 8"

definition specKeyW :: "Key \<Rightarrow> byte list" where
  "specKeyW k = specUvarintW (of_int (length_k k)) @ value_k k"

definition specKeyR :: "byte list \<Rightarrow> error + (Key \<times> byte list)" where
  "specKeyR b =
     (case specUvarintR b of
        Inl e \<Rightarrow> Inl e
      | Inr (bitLen, r) \<Rightarrow>
          if bytesNeeded (unat bitLen) > length r then Inl ErrUnexpectedEOF
          else Inr (\<lparr>length_k = int (unat bitLen), value_k = take (bytesNeeded (unat bitLen)) r\<rparr>,
                    drop (bytesNeeded (unat bitLen)) r))"

definition specIDW :: "ID \<Rightarrow> byte list" where
  "specIDW i = i"

definition specIDR :: "byte list \<Rightarrow> error + (ID \<times> byte list)" where
  "specIDR b = (if length b < 32 then Inl ErrUnexpectedEOF else Inr (take 32 b, drop 32 b))"

definition specUintSize :: "uint64 \<Rightarrow> int" where
  "specUintSize x = int (length (specUvarintW x))"

definition specBoolLen :: int where
  "specBoolLen = 1"

definition specChildSize :: "byte \<Rightarrow> child \<Rightarrow> int" where
  "specChildSize index ch =
     specUintSize (ucast index) + 32 + int (length (specKeyW (compressedKey ch))) + specBoolLen"

definition specCodec :: codec where
  "specCodec =
     \<lparr>wMaybeBytes = specMaybeBytesW, wUvarint = specUvarintW, wKey = specKeyW,
      wID = specIDW, wBool = specBoolW,
      rMaybeBytes = specMaybeBytesR, rUvarint = specUvarintR, rKey = specKeyR,
      rID = specIDR, rBool = specBoolR,
      uintSize = specUintSize, childSize = specChildSize, boolLen = specBoolLen\<rparr>"

definition specOkKey :: "Key \<Rightarrow> bool" where
  "specOkKey k \<longleftrightarrow>
     0 \<le> length_k k \<and> length_k k < 2 ^ 64
     \<and> length (value_k k) = bytesNeeded (nat (length_k k))"

section \<open>Point lookup (raw\_disk.go)\<close>

text \<open>
  The in-memory node that \<open>getNode\<close> returns, and the store: its file is a byte list, its
  hasher and token size are the fields of \<open>rawDisk\<close>. The operations on keys
  (\<open>Token\<close>, \<open>iteratedHasPrefix\<close>, \<open>Take\<close>) and the computation of a node's value digest
  (\<open>setValueDigest\<close>) belong to files that are not part of the sources at hand; they are
  taken as a parameter.
\<close>

type_synonym Hasher = "byte list \<Rightarrow> ID"

record dbNode =
  value_db :: "byte list option"
  children_db :: "(byte \<times> child) list"

record node =
  dbNode :: dbNode
  key :: Key
  valueDigest :: "byte list option"

record lib =
  Token :: "Key \<Rightarrow> int \<Rightarrow> int \<Rightarrow> byte"
  iteratedHasPrefix :: "Key \<Rightarrow> Key \<Rightarrow> int \<Rightarrow> int \<Rightarrow> bool"
  Take :: "Key \<Rightarrow> int \<Rightarrow> Key"
  valueDigestOf :: "Hasher \<Rightarrow> byte list option \<Rightarrow> byte list option"

record rawDisk =
  file' :: "byte list"
  hasher :: Hasher
  tokenSize :: int

text \<open>
  \<open>os.File.ReadAt\<close> on the byte list: a negative offset is an error, an empty buffer reads
  nothing, and fewer bytes than the buffer holds is an error. \<open>make([]byte, int(size))\<close>
  panics on a negative size and on a size above the allocation limit of the Go runtime
  (\<open>maxAlloc\<close>, \<open>2 ^ 48\<close> bytes on 64-bit Linux). A size within the limit that the machine
  cannot provide ends the process; the model lets the read fail there.
\<close>

definition maxAlloc :: int where
  "maxAlloc = 2 ^ 48"

definition ReadAt :: "byte list \<Rightarrow> nat \<Rightarrow> int \<Rightarrow> error + byte list" where
  "ReadAt f n off =
     (if off < 0 then Inl ErrIO
      else if n = 0 then Inr []
      else if int (length f) < off + int n then Inl ErrIO
      else Inr (take n (drop (nat off) f)))"

definition readNodeFromDisk :: "codec \<Rightarrow> rawDisk \<Rightarrow> diskAddress \<Rightarrow> error + diskBranchNode" where
  "readNodeFromDisk c r address' =
     (if sint (size' address') < 0 \<or> maxAlloc < sint (size' address')
      then Inl (Panic MakeSliceLenOutOfRange)
      else
        (case ReadAt (file' r) (nat (sint (size' address'))) (sint (offset address')) of
           Inl e \<Rightarrow> Inl e
         | Inr bytes' \<Rightarrow> decodeDiskBranchNode c bytes'))"

definition convertDiskBranchNodeToNode :: "lib \<Rightarrow> Key \<Rightarrow> diskBranchNode \<Rightarrow> Hasher \<Rightarrow> node" where
  "convertDiskBranchNodeToNode lb key' dbn hasher' =
     (let nodeChildren = map (\<lambda>(childByte, dChild). (childByte, child dChild)) (children dbn)
      in \<lparr>dbNode = \<lparr>value_db = value_n dbn, children_db = nodeChildren\<rparr>,
          key = key',
          valueDigest = valueDigestOf lb hasher' (value_n dbn)\<rparr>)"

text \<open>Modelled from the spec: \<open>ToKey\<close>, which is not in the sources at hand. The traversal
  starts at matched length 0, so the key of the empty byte string has length 0; a key made
  of bytes has eight bits for each.\<close>

definition ToKey :: "byte list \<Rightarrow> Key" where
  "ToKey bs = \<lparr>length_k = 8 * int (length bs), value_k = bs\<rparr>"

text \<open>
  The loop of \<open>getNode\<close>. Nothing in the code bounds the number of iterations (a token
  size of 0 and an empty compressed key leave \<open>currentNodeKey\<close> as it is), so the loop is
  a partial function: \<open>None\<close> stands for a run that never returns.
\<close>

partial_function (option) getNodeLoop ::
  "codec \<Rightarrow> lib \<Rightarrow> rawDisk \<Rightarrow> Key \<Rightarrow> diskBranchNode \<Rightarrow> Key \<Rightarrow> (error + diskBranchNode) option" where
  "getNodeLoop c lb r key' currentNode currentNodeKey =
     (if length_k currentNodeKey < length_k key' then
        (case map_of (children currentNode)
                (Token lb key' (length_k currentNodeKey) (tokenSize r)) of
           None \<Rightarrow> Some (Inl ErrFailedToFindNode)
         | Some nextChildEntry \<Rightarrow>
             if \<not> iteratedHasPrefix lb key' (compressedKey (child nextChildEntry))
                    (length_k currentNodeKey + tokenSize r) (tokenSize r)
             then Some (Inl ErrFailedToFindNode)
             else
               (case readNodeFromDisk c r (address nextChildEntry) of
                  Inl e \<Rightarrow> Some (Inl e)
                | Inr childNode \<Rightarrow>
                    getNodeLoop c lb r key' childNode
                      (Take lb key' (length_k currentNodeKey + tokenSize r
                                     + length_k (compressedKey (child nextChildEntry))))))
      else Some (Inr currentNode))"

declare getNodeLoop.simps [code]

definition getNode ::
  "codec \<Rightarrow> lib \<Rightarrow> rawDisk \<Rightarrow> Key \<Rightarrow> bool \<Rightarrow> (error + node) option" where
  "getNode c lb r key' hasValue' =
     (case ReadAt (file' r) 16 rootKeyDiskAddressOffset of
        Inl e \<Rightarrow> Some (Inl e)
      | Inr diskAddressBytes \<Rightarrow>
          (case decode diskAddressBytes of
             Inl e \<Rightarrow> Some (Inl e)
           | Inr diskAddr \<Rightarrow>
               (case readNodeFromDisk c r diskAddr of
                  Inl e \<Rightarrow> Some (Inl e)
                | Inr merkleRootNode \<Rightarrow>
                    (case getNodeLoop c lb r key' merkleRootNode (ToKey []) of
                       None \<Rightarrow> None
                     | Some (Inl e) \<Rightarrow> Some (Inl e)
                     | Some (Inr currentNode) \<Rightarrow>
                         Some (Inr (convertDiskBranchNodeToNode lb key' currentNode (hasher r)))))))"


section \<open>The traversal, as the specification words it\<close>

text \<open>
  \<open>walk c lb r key n m res\<close>: starting at node \<open>n\<close> with \<open>m\<close> bits of \<open>key\<close> matched, the
  descent ends with \<open>res\<close>. One rule for each outcome at a level: the key is exhausted
  (success with the current node), the node has no child for the next token or the child's
  compressed key does not match (node not found), the child cannot be read from its stored
  address (that error), or the walk goes on from the child with the matched length
  advanced by the token width and the compressed key's length.
  \<open>getNodeSpec\<close> starts the walk at the root named by the root-address slot and rebuilds
  the in-memory node with the full key. \<open>walkProgress\<close> collects what makes every level
  advance: a positive token size, \<open>Take\<close> giving a key of the requested length (at most the
  key's own), and compressed keys of non-negative length from the reader.
\<close>

inductive walk ::
  "codec \<Rightarrow> lib \<Rightarrow> rawDisk \<Rightarrow> Key \<Rightarrow> diskBranchNode \<Rightarrow> int \<Rightarrow> error + diskBranchNode \<Rightarrow> bool"
  for c :: codec and lb :: lib and r :: rawDisk and key' :: Key where
  walk_done:
    "\<not> matchedLength < length_k key' \<Longrightarrow> walk c lb r key' n matchedLength (Inr n)"
| walk_no_child:
    "matchedLength < length_k key' \<Longrightarrow>
     map_of (children n) (Token lb key' matchedLength (tokenSize r)) = None \<Longrightarrow>
     walk c lb r key' n matchedLength (Inl ErrFailedToFindNode)"
| walk_mismatch:
    "matchedLength < length_k key' \<Longrightarrow>
     map_of (children n) (Token lb key' matchedLength (tokenSize r)) = Some e \<Longrightarrow>
     \<not> iteratedHasPrefix lb key' (compressedKey (child e))
          (matchedLength + tokenSize r) (tokenSize r) \<Longrightarrow>
     walk c lb r key' n matchedLength (Inl ErrFailedToFindNode)"
| walk_read_error:
    "matchedLength < length_k key' \<Longrightarrow>
     map_of (children n) (Token lb key' matchedLength (tokenSize r)) = Some e \<Longrightarrow>
     iteratedHasPrefix lb key' (compressedKey (child e))
          (matchedLength + tokenSize r) (tokenSize r) \<Longrightarrow>
     readNodeFromDisk c r (address e) = Inl err \<Longrightarrow>
     walk c lb r key' n matchedLength (Inl err)"
| walk_descend:
    "matchedLength < length_k key' \<Longrightarrow>
     map_of (children n) (Token lb key' matchedLength (tokenSize r)) = Some e \<Longrightarrow>
     iteratedHasPrefix lb key' (compressedKey (child e))
          (matchedLength + tokenSize r) (tokenSize r) \<Longrightarrow>
     readNodeFromDisk c r (address e) = Inr n' \<Longrightarrow>
     walk c lb r key' n'
       (length_k (Take lb key' (matchedLength + tokenSize r + length_k (compressedKey (child e)))))
       res \<Longrightarrow>
     walk c lb r key' n matchedLength res"

code_pred walk .

definition getNodeSpec :: "codec \<Rightarrow> lib \<Rightarrow> rawDisk \<Rightarrow> Key \<Rightarrow> error + node \<Rightarrow> bool" where
  "getNodeSpec c lb r key' res =
     (case ReadAt (file' r) 16 rootKeyDiskAddressOffset of
        Inl e \<Rightarrow> res = Inl e
      | Inr rootAddressBytes \<Rightarrow>
          (case decode rootAddressBytes of
             Inl e \<Rightarrow> res = Inl e
           | Inr rootAddress \<Rightarrow>
               (case readNodeFromDisk c r rootAddress of
                  Inl e \<Rightarrow> res = Inl e
                | Inr root \<Rightarrow>
                    (\<exists>w. walk c lb r key' root 0 w
                       \<and> res = (case w of
                                  Inl e \<Rightarrow> Inl e
                                | Inr n \<Rightarrow> Inr (convertDiskBranchNodeToNode lb key' n (hasher r)))))))"

definition walkProgress :: "codec \<Rightarrow> lib \<Rightarrow> rawDisk \<Rightarrow> bool" where
  "walkProgress c lb r \<longleftrightarrow>
     1 \<le> tokenSize r
     \<and> (\<forall>k n. 0 \<le> n \<longrightarrow> length_k (Take lb k n) = min n (length_k k))
     \<and> (\<forall>b k rest. rKey c b = Inr (k, rest) \<longrightarrow> 0 \<le> length_k k)"

definition nonNegativeKeys :: "(byte \<times> diskChild) list \<Rightarrow> bool" where
  "nonNegativeKeys cs \<longleftrightarrow> (\<forall>(index, e) \<in> set cs. 0 \<le> length_k (compressedKey (child e)))"

section \<open>The batch writer (raw\_disk.go)\<close>

text \<open>
  A change batch is the map \<open>changes.nodes\<close> with the order in which \<open>range\<close> visits it:
  a list of keys, each with the node after the change (its value and children).

  \<open>writeChanges\<close> shares \<open>diskBranchNode\<close> and \<open>diskChild\<close> objects through pointers (the
  frontier, the child-to-parent map and the parents' children maps point at the same
  objects), so they live in an explicit store. A pointer is \<open>None\<close> (nil) or the index of an
  object; a children map is \<open>None\<close> (the nil map) or an association list of pointers.
\<close>

record change =
  after :: dbNode

type_synonym changeSummary = "(Key \<times> change) list"

type_synonym ptr = "nat option"

record diskBranchNodeObj =
  value_o :: "byte list option"
  children_o :: "(byte \<times> ptr) list option"

record heap =
  branchNodes :: "diskBranchNodeObj list"
  diskChilds :: "diskChild list"

record diskBranchNodeWithKey =
  key_w :: Key
  dbn_w :: ptr

record 'a slice =
  arr :: "'a list"
  len :: nat

text \<open>
  A Go slice is a window on a backing array: \<open>arr\<close> is the array from the slice's first
  element to the end of its capacity, \<open>len\<close> its length. \<open>make([]T, n)\<close> has \<open>n\<close> zero
  elements and capacity \<open>n\<close>. \<open>append\<close> writes in place while the capacity lasts and moves
  to a larger array otherwise; the new capacity is the implementation's choice, the
  parameter \<open>grow\<close>. \<open>s[1 : len(s)+1]\<close> panics unless the capacity exceeds the length,
  and has the length of \<open>s\<close>.
\<close>

definition makeSlice :: "'a \<Rightarrow> nat \<Rightarrow> 'a slice" where
  "makeSlice zero n = \<lparr>arr = replicate n zero, len = n\<rparr>"

definition appendSlice :: "(nat \<Rightarrow> nat) \<Rightarrow> 'a \<Rightarrow> 'a slice \<Rightarrow> 'a \<Rightarrow> 'a slice" where
  "appendSlice grow zero s x =
     (if len s < length (arr s) then \<lparr>arr = (arr s)[len s := x], len = len s + 1\<rparr>
      else \<lparr>arr = take (len s) (arr s) @ [x] @ replicate (grow (len s + 1) - (len s + 1)) zero,
            len = len s + 1\<rparr>)"

definition reslice1 :: "'a slice \<Rightarrow> error + 'a slice" where
  "reslice1 s =
     (if length (arr s) < len s + 1 then Inl (Panic SliceBoundsOutOfRange)
      else Inr \<lparr>arr = tl (arr s), len = len s\<rparr>)"

text \<open>The zero value of \<open>diskBranchNodeWithKey\<close>, and \<open>diskAddress{}\<close>.\<close>

definition zeroNodeWithKey :: diskBranchNodeWithKey where
  "zeroNodeWithKey = \<lparr>key_w = \<lparr>length_k = 0, value_k = []\<rparr>, dbn_w = None\<rparr>"

definition emptyAddress :: diskAddress where
  "emptyAddress = \<lparr>offset = 0, size' = 0\<rparr>"

text \<open>
  Writing a field through a pointer, allocating a \<open>diskChild\<close>, and reading a node with
  its children for the codec. Through nil each of them panics.
\<close>

definition setValue :: "heap \<Rightarrow> ptr \<Rightarrow> byte list option \<Rightarrow> error + heap" where
  "setValue h p v =
     (case p of
        None \<Rightarrow> Inl (Panic NilPointerDereference)
      | Some a \<Rightarrow>
          if a < length (branchNodes h)
          then Inr (h\<lparr>branchNodes := (branchNodes h)[a := (branchNodes h ! a)\<lparr>value_o := v\<rparr>]\<rparr>)
          else Inl (Panic NilPointerDereference))"

definition setChildren :: "heap \<Rightarrow> ptr \<Rightarrow> (byte \<times> ptr) list option \<Rightarrow> error + heap" where
  "setChildren h p cs =
     (case p of
        None \<Rightarrow> Inl (Panic NilPointerDereference)
      | Some a \<Rightarrow>
          if a < length (branchNodes h)
          then Inr (h\<lparr>branchNodes := (branchNodes h)[a := (branchNodes h ! a)\<lparr>children_o := cs\<rparr>]\<rparr>)
          else Inl (Panic NilPointerDereference))"

definition newDiskChild :: "heap \<Rightarrow> diskChild \<Rightarrow> ptr \<times> heap" where
  "newDiskChild h dc = (Some (length (diskChilds h)), h\<lparr>diskChilds := diskChilds h @ [dc]\<rparr>)"

definition loadDiskChild :: "heap \<Rightarrow> ptr \<Rightarrow> error + diskChild" where
  "loadDiskChild h p =
     (case p of
        None \<Rightarrow> Inl (Panic NilPointerDereference)
      | Some a \<Rightarrow>
          if a < length (diskChilds h) then Inr (diskChilds h ! a)
          else Inl (Panic NilPointerDereference))"

fun loadEntries :: "heap \<Rightarrow> (byte \<times> ptr) list \<Rightarrow> error + (byte \<times> diskChild) list" where
  "loadEntries h [] = Inr []"
| "loadEntries h ((index, p) # ps) =
     (case loadDiskChild h p of
        Inl e \<Rightarrow> Inl e
      | Inr dc \<Rightarrow>
          (case loadEntries h ps of
             Inl e \<Rightarrow> Inl e
           | Inr es \<Rightarrow> Inr ((index, dc) # es)))"

definition loadNode :: "heap \<Rightarrow> ptr \<Rightarrow> error + diskBranchNode" where
  "loadNode h p =
     (case p of
        None \<Rightarrow> Inl (Panic NilPointerDereference)
      | Some a \<Rightarrow>
          if a < length (branchNodes h) then
            (case children_o (branchNodes h ! a) of
               None \<Rightarrow> Inr \<lparr>value_n = value_o (branchNodes h ! a), children = []\<rparr>
             | Some ps \<Rightarrow>
                 (case loadEntries h ps of
                    Inl e \<Rightarrow> Inl e
                  | Inr es \<Rightarrow> Inr \<lparr>value_n = value_o (branchNodes h ! a), children = es\<rparr>))
          else Inl (Panic NilPointerDereference))"

text \<open>
  \<open>os.File.Truncate\<close> and \<open>os.File.WriteAt\<close> on the byte list: a negative size or offset is
  an error, growing the file or writing beyond its end fills the gap with zero bytes.
  \<open>Stat\<close> on the byte list always succeeds.
\<close>

definition Truncate :: "byte list \<Rightarrow> int \<Rightarrow> error + byte list" where
  "Truncate f n =
     (if n < 0 then Inl ErrIO
      else Inr (take (nat n) f @ replicate (nat n - length f) 0))"

definition WriteAt :: "byte list \<Rightarrow> byte list \<Rightarrow> int \<Rightarrow> error + byte list" where
  "WriteAt f b off =
     (if off < 0 then Inl ErrIO
      else if b = [] then Inr f
      else Inr (take (nat off) f @ replicate (nat off - length f) 0 @ b
                @ drop (nat off + length b) f))"

definition writeDiskAtNode :: "byte list \<Rightarrow> int64 \<Rightarrow> byte list \<Rightarrow> error + byte list" where
  "writeDiskAtNode f offset' branchNodeBytes = WriteAt f branchNodeBytes (sint offset')"

text \<open>The local variables of \<open>writeChanges\<close> shared by the set-up and the frontier loop.\<close>

record writeState =
  heap_s :: heap
  frontierSet :: "diskBranchNodeWithKey slice"
  nodeToDiskAddressMap :: "Key \<rightharpoonup> diskAddress"
  childToParentMap :: "Key \<rightharpoonup> diskBranchNodeWithKey"
  currOffset :: int64
  changeSize :: int64

text \<open>
  The inner loop of the set-up, over the children of one changed node. \<open>diskChildren\<close>
  is declared without \<open>make\<close>, so it is the nil map when the first child is assigned.
\<close>

fun addChildren ::
  "lib \<Rightarrow> rawDisk \<Rightarrow> Key \<Rightarrow> ptr \<Rightarrow> (byte \<times> child) list
     \<Rightarrow> heap \<times> (byte \<times> ptr) list option \<times> (Key \<rightharpoonup> diskBranchNodeWithKey)
     \<Rightarrow> error + heap \<times> (byte \<times> ptr) list option \<times> (Key \<rightharpoonup> diskBranchNodeWithKey)" where
  "addChildren lb r key' dbn [] st = Inr st"
| "addChildren lb r key' dbn ((byteKey, childNode) # rest) (h, diskChildren, c2p) =
     (let (p, h') = newDiskChild h \<lparr>child = childNode, address = emptyAddress\<rparr>
      in case diskChildren of
           None \<Rightarrow> Inl (Panic NilMapAssignment)
         | Some m \<Rightarrow>
             let childKey = Take lb key' (length_k key' + tokenSize r
                                          + length_k (compressedKey childNode))
             in addChildren lb r key' dbn rest
                  (h', Some (AList.update byteKey p m),
                   c2p(childKey \<mapsto> \<lparr>key_w = key', dbn_w = dbn\<rparr>)))"

text \<open>
  One iteration of the set-up loop. \<open>dbn\<close> is declared as a pointer and never assigned
  an object, so it is nil when \<open>dbn.value\<close> is written.
\<close>

definition setupNode ::
  "codec \<Rightarrow> lib \<Rightarrow> (nat \<Rightarrow> nat) \<Rightarrow> rawDisk \<Rightarrow> writeState \<Rightarrow> Key \<times> change \<Rightarrow> error + writeState" where
  "setupNode c lb grow r st kc =
     (let key' = fst kc; changeNode = snd kc;
          dbn = None
      in case setValue (heap_s st) dbn (value_db (after changeNode)) of
           Inl e \<Rightarrow> Inl e
         | Inr h1 \<Rightarrow>
             let frontier1 =
                   (if length (children_db (after changeNode)) = 0
                    then appendSlice grow zeroNodeWithKey (frontierSet st)
                           \<lparr>key_w = key', dbn_w = dbn\<rparr>
                    else frontierSet st);
                 diskChildren = None
             in case addChildren lb r key' dbn (children_db (after changeNode))
                       (h1, diskChildren, childToParentMap st) of
                  Inl e \<Rightarrow> Inl e
                | Inr (h2, diskChildren', c2p) \<Rightarrow>
                    (case setChildren h2 dbn diskChildren' of
                       Inl e \<Rightarrow> Inl e
                     | Inr h3 \<Rightarrow>
                         (case loadNode h3 dbn of
                            Inl e \<Rightarrow> Inl e
                          | Inr n \<Rightarrow>
                              let dbnSize = (of_int (encodeDiskBranchNodeSize c n) :: int64)
                              in Inr \<lparr>heap_s = h3, frontierSet = frontier1,
                                      nodeToDiskAddressMap =
                                        (nodeToDiskAddressMap st)
                                          (key' \<mapsto> \<lparr>offset = currOffset st, size' = dbnSize\<rparr>),
                                      childToParentMap = c2p,
                                      currOffset = currOffset st + dbnSize + 1,
                                      changeSize = changeSize st + dbnSize\<rparr>)))"

fun setupLoop ::
  "codec \<Rightarrow> lib \<Rightarrow> (nat \<Rightarrow> nat) \<Rightarrow> rawDisk \<Rightarrow> writeState \<Rightarrow> changeSummary \<Rightarrow> error + writeState" where
  "setupLoop c lb grow r st [] = Inr st"
| "setupLoop c lb grow r st (kc # rest) =
     (case setupNode c lb grow r st kc of
        Inl e \<Rightarrow> Inl e
      | Inr st' \<Rightarrow> setupLoop c lb grow r st' rest)"

text \<open>
  The loop that patches a parent: every child entry of the parent whose compressed key
  passes the prefix test against the parent's key gets the address just written.
\<close>

definition setAddress :: "heap \<Rightarrow> ptr \<Rightarrow> diskAddress \<Rightarrow> error + heap" where
  "setAddress h p a' =
     (case p of
        None \<Rightarrow> Inl (Panic NilPointerDereference)
      | Some a \<Rightarrow>
          if a < length (diskChilds h)
          then Inr (h\<lparr>diskChilds := (diskChilds h)[a := (diskChilds h ! a)\<lparr>address := a'\<rparr>]\<rparr>)
          else Inl (Panic NilPointerDereference))"

fun patchChildren ::
  "lib \<Rightarrow> rawDisk \<Rightarrow> diskBranchNodeWithKey \<Rightarrow> diskAddress \<Rightarrow> heap \<Rightarrow> (byte \<times> ptr) list
     \<Rightarrow> error + heap" where
  "patchChildren lb r parentNodeWithKey diskAddr h [] = Inr h"
| "patchChildren lb r parentNodeWithKey diskAddr h ((index, childNode) # rest) =
     (case loadDiskChild h childNode of
        Inl e \<Rightarrow> Inl e
      | Inr dc \<Rightarrow>
          if iteratedHasPrefix lb (key_w parentNodeWithKey) (compressedKey (child dc))
               (length_k (key_w parentNodeWithKey) + tokenSize r) (tokenSize r)
          then (case setAddress h childNode diskAddr of
                  Inl e \<Rightarrow> Inl e
                | Inr h' \<Rightarrow> patchChildren lb r parentNodeWithKey diskAddr h' rest)
          else patchChildren lb r parentNodeWithKey diskAddr h rest)"

definition patchParent ::
  "lib \<Rightarrow> rawDisk \<Rightarrow> heap \<Rightarrow> diskBranchNodeWithKey \<Rightarrow> diskAddress \<Rightarrow> error + heap" where
  "patchParent lb r h parentNodeWithKey diskAddr =
     (case dbn_w parentNodeWithKey of
        None \<Rightarrow> Inl (Panic NilPointerDereference)
      | Some a \<Rightarrow>
          if a < length (branchNodes h) then
            (case children_o (branchNodes h ! a) of
               None \<Rightarrow> Inr h
             | Some ps \<Rightarrow> patchChildren lb r parentNodeWithKey diskAddr h ps)
          else Inl (Panic NilPointerDereference))"

text \<open>
  One iteration of the frontier loop, and the loop. The loop has no bound in the code; it
  is a partial function, \<open>None\<close> standing for a run that never returns. The result is the
  file as the run leaves it and the error (or panic) it ends with, \<open>None\<close> for success.
\<close>

definition frontierStep ::
  "codec \<Rightarrow> lib \<Rightarrow> (nat \<Rightarrow> nat) \<Rightarrow> rawDisk \<Rightarrow> writeState \<Rightarrow> byte list
     \<Rightarrow> (byte list \<times> error) + (writeState \<times> byte list)" where
  "frontierStep c lb grow r st f =
     (case arr (frontierSet st) of
        [] \<Rightarrow> Inl (f, Panic IndexOutOfRange)
      | currNode # others \<Rightarrow>
          (case reslice1 (frontierSet st) of
             Inl e \<Rightarrow> Inl (f, e)
           | Inr frontier1 \<Rightarrow>
               (case loadNode (heap_s st) (dbn_w currNode) of
                  Inl e \<Rightarrow> Inl (f, e)
                | Inr n \<Rightarrow>
                    let currNodeBytes = encodeDiskBranchNode c n;
                        diskAddr = (case nodeToDiskAddressMap st (key_w currNode) of
                                      None \<Rightarrow> emptyAddress
                                    | Some a \<Rightarrow> a)
                    in case writeDiskAtNode f (offset diskAddr) currNodeBytes of
                         Inl e \<Rightarrow> Inl (f, ErrOther)
                       | Inr f1 \<Rightarrow>
                           (case childToParentMap st (key_w currNode) of
                              None \<Rightarrow> Inr (st\<lparr>frontierSet := frontier1\<rparr>, f1)
                            | Some parentNodeWithKey \<Rightarrow>
                                (case patchParent lb r (heap_s st) parentNodeWithKey diskAddr of
                                   Inl e \<Rightarrow> Inl (f1, e)
                                 | Inr h1 \<Rightarrow>
                                     Inr (st\<lparr>heap_s := h1,
                                             frontierSet :=
                                               appendSlice grow zeroNodeWithKey frontier1
                                                 parentNodeWithKey\<rparr>, f1))))))"

partial_function (option) frontierLoop ::
  "codec \<Rightarrow> lib \<Rightarrow> (nat \<Rightarrow> nat) \<Rightarrow> rawDisk \<Rightarrow> writeState \<Rightarrow> byte list
     \<Rightarrow> (byte list \<times> error option) option" where
  "frontierLoop c lb grow r st f =
     (if len (frontierSet st) > 0 then
        (case frontierStep c lb grow r st f of
           Inl (f', e) \<Rightarrow> Some (f', Some e)
         | Inr (st', f') \<Rightarrow> frontierLoop c lb grow r st' f')
      else Some (f, None))"

declare frontierLoop.simps [code]

definition writeChanges ::
  "codec \<Rightarrow> lib \<Rightarrow> (nat \<Rightarrow> nat) \<Rightarrow> rawDisk \<Rightarrow> changeSummary \<Rightarrow> (byte list \<times> error option) option" where
  "writeChanges c lb grow r changes =
     (let fileSize = (of_nat (length (file' r)) :: int64);
          st0 = \<lparr>heap_s = \<lparr>branchNodes = [], diskChilds = []\<rparr>,
                 frontierSet = makeSlice zeroNodeWithKey (length changes),
                 nodeToDiskAddressMap = Map.empty,
                 childToParentMap = Map.empty,
                 currOffset = fileSize,
                 changeSize = 0\<rparr>
      in case setupLoop c lb grow r st0 changes of
           Inl e \<Rightarrow> Some (file' r, Some e)
         | Inr st \<Rightarrow>
             (case Truncate (file' r) (sint (fileSize + changeSize st)) of
                Inl e \<Rightarrow> Some (file' r, Some ErrOther)
              | Inr f \<Rightarrow> frontierLoop c lb grow r st f))"


text \<open>
  What the file holds for a child: the disk address that the node stored at address \<open>a\<close>
  carries for its child at index \<open>i\<close>, as \<open>readNodeFromDisk\<close> reads it (\<open>None\<close> when no node
  can be read there or the node has no such child).
\<close>

definition storedChildAddress :: "codec \<Rightarrow> rawDisk \<Rightarrow> diskAddress \<Rightarrow> byte \<Rightarrow> diskAddress option" where
  "storedChildAddress c r a i =
     (case readNodeFromDisk c r a of
        Inl e \<Rightarrow> None
      | Inr n \<Rightarrow> map_option address (map_of (children n) i))"

section \<open>Key operations modelled from the specification\<close>

text \<open>
  Modelled from the spec: \<open>Token\<close>, \<open>iteratedHasPrefix\<close>, \<open>Take\<close> and \<open>setValueDigest\<close>, which
  are not in the sources at hand. A key is a sequence of fixed-width tokens packed most
  significant bit first; the token at a bit offset is the next \<open>tokenBitSize\<close> bits; a
  prefix matches at an offset when the key has enough bits left and agrees with it token
  by token over the prefix's declared length; \<open>Take\<close> keeps the first bits of a key; the
  digest of a value is the hasher applied to it.
\<close>

definition specToken :: "Key \<Rightarrow> int \<Rightarrow> int \<Rightarrow> byte" where
  "specToken k bitIndex tokenBitSize =
     (if bitIndex < 0 \<or> length (value_k k) \<le> nat (bitIndex div 8) then 0
      else drop_bit (nat ((8 - (bitIndex + tokenBitSize) mod 8) mod 8))
             (value_k k ! nat (bitIndex div 8))
           AND mask (nat tokenBitSize))"

definition specIteratedHasPrefix :: "Key \<Rightarrow> Key \<Rightarrow> int \<Rightarrow> int \<Rightarrow> bool" where
  "specIteratedHasPrefix k prefix' bitsOffset tokenBitSize \<longleftrightarrow>
     length_k prefix' \<le> length_k k - bitsOffset
     \<and> (\<forall>j \<in> set [0 ..< nat ((length_k prefix' + tokenBitSize - 1) div tokenBitSize)].
           specToken k (bitsOffset + int j * tokenBitSize) tokenBitSize
             = specToken prefix' (int j * tokenBitSize) tokenBitSize)"

definition specTake :: "Key \<Rightarrow> int \<Rightarrow> Key" where
  "specTake k bitsToTake =
     (if length_k k \<le> bitsToTake then k
      else
        let n = bytesNeeded (nat bitsToTake);
            bs = take n (value_k k);
            pad = (8 - nat bitsToTake mod 8) mod 8
        in \<lparr>length_k = bitsToTake,
            value_k = (if bs = [] then []
                       else butlast bs @ [push_bit pad (drop_bit pad (last bs))])\<rparr>)"

definition specValueDigestOf :: "Hasher \<Rightarrow> byte list option \<Rightarrow> byte list option" where
  "specValueDigestOf h v = map_option h v"

definition specLib :: lib where
  "specLib = \<lparr>Token = specToken, iteratedHasPrefix = specIteratedHasPrefix, Take = specTake,
     valueDigestOf = specValueDigestOf\<rparr>"

section \<open>Sample nodes\<close>

text \<open>The node of \<open>TestEncodeDiskBranchNode\<close>: no value, one child at index 0 with an empty
  compressed key, a 32-byte id, no value, at address (10, 100).\<close>

definition testID :: ID where
  "testID = replicate 32 0x2a"

definition child1 :: diskChild where
  "child1 = \<lparr>child = \<lparr>compressedKey = \<lparr>length_k = 0, value_k = []\<rparr>, id' = testID,
                       hasValue = False\<rparr>,
            address = \<lparr>offset = 10, size' = 100\<rparr>\<rparr>"

definition branchNode1 :: diskBranchNode where
  "branchNode1 = \<lparr>value_n = None, children = [(0x0, child1)]\<rparr>"

text \<open>A node with a value and two children, in two iteration orders of the same map.\<close>

definition child2 :: diskChild where
  "child2 = \<lparr>child = \<lparr>compressedKey = \<lparr>length_k = 4, value_k = [0xa0]\<rparr>, id' = testID,
                       hasValue = True\<rparr>,
            address = \<lparr>offset = 300, size' = 41\<rparr>\<rparr>"

definition branchNode2 :: diskBranchNode where
  "branchNode2 = \<lparr>value_n = Some [1, 2, 3], children = [(0x7, child2), (0x0, child1)]\<rparr>"

definition branchNode2' :: diskBranchNode where
  "branchNode2' = \<lparr>value_n = Some [1, 2, 3], children = [(0x0, child1), (0x7, child2)]\<rparr>"

text \<open>Byte strings for the decoder: the encoding of \<open>branchNode1\<close>, and two children whose
  indices 7 and 0 come in descending order.\<close>

definition encodedNode1 :: "byte list" where
  "encodedNode1 = [0, 1, 0, 0] @ replicate 32 0x2a @ [0, 10, 100]"

definition swappedNode2 :: "byte list" where
  "swappedNode2 =
     [0, 2, 7, 0] @ replicate 32 0x2a @ [0, 10, 100] @ [0, 0] @ replicate 32 0x2a @ [0, 10, 100]"

text \<open>
  A store file: the shutdown marker, the root address, and four nodes. The root has the
  children \<open>a\<close> (empty compressed key) and \<open>b\<close> (compressed key \<open>xy\<close>); node \<open>a\<close> has the
  child \<open>b\<close>. The stored keys are \<open>a\<close>, \<open>ab\<close> and \<open>bxy\<close>; tokens are bytes.
\<close>

definition leafAB :: diskBranchNode where
  "leafAB = \<lparr>value_n = Some [2], children = []\<rparr>"

definition leafBXY :: diskBranchNode where
  "leafBXY = \<lparr>value_n = Some [3], children = []\<rparr>"

definition nodeA :: diskBranchNode where
  "nodeA = \<lparr>value_n = Some [1],
     children = [(0x62, \<lparr>child = \<lparr>compressedKey = \<lparr>length_k = 0, value_k = []\<rparr>, id' = testID,
                                  hasValue = True\<rparr>,
                         address = \<lparr>offset = 17, size' = 4\<rparr>\<rparr>)]\<rparr>"

definition rootNode :: diskBranchNode where
  "rootNode = \<lparr>value_n = None,
     children =
       [(0x61, \<lparr>child = \<lparr>compressedKey = \<lparr>length_k = 0, value_k = []\<rparr>, id' = testID,
                        hasValue = True\<rparr>,
               address = \<lparr>offset = 25, size' = 41\<rparr>\<rparr>),
        (0x62, \<lparr>child = \<lparr>compressedKey = \<lparr>length_k = 16, value_k = [0x78, 0x79]\<rparr>,
                        id' = testID, hasValue = True\<rparr>,
               address = \<lparr>offset = 21, size' = 4\<rparr>\<rparr>)]\<rparr>"

definition testFile :: "byte list" where
  "testFile = [0] @ bytes \<lparr>offset = 66, size' = 78\<rparr>
     @ encodeDiskBranchNode specCodec leafAB
     @ encodeDiskBranchNode specCodec leafBXY
     @ encodeDiskBranchNode specCodec nodeA
     @ encodeDiskBranchNode specCodec rootNode"

definition testHasher :: Hasher where
  "testHasher v = replicate 32 0"

definition testDisk :: rawDisk where
  "testDisk = \<lparr>file' = testFile, hasher = testHasher, tokenSize = 8\<rparr>"


text \<open>
  Batches of the batch writer: a fresh file (the marker and an empty root slot); a batch
  holding one leaf, the new root; a batch of four changed nodes (the root with the children
  \<open>a\<close> and \<open>b\<close>, the leaf \<open>a\<close>, the node \<open>b\<close> with the child \<open>c\<close>, the leaf \<open>bc\<close>), in which
  the root has two changed children; a batch that changes only the root of the store file
  above, whose children \<open>a\<close> and \<open>b\<close> are unchanged.
\<close>

definition growDouble :: "nat \<Rightarrow> nat" where
  "growDouble n = 2 * n"

definition freshFile :: "byte list" where
  "freshFile = replicate 17 0"

definition freshDisk :: rawDisk where
  "freshDisk = \<lparr>file' = freshFile, hasher = testHasher, tokenSize = 8\<rparr>"

definition rootLeafBatch :: changeSummary where
  "rootLeafBatch = [(ToKey [], \<lparr>after = \<lparr>value_db = Some [1], children_db = []\<rparr>\<rparr>)]"

definition plainChild :: child where
  "plainChild = \<lparr>compressedKey = \<lparr>length_k = 0, value_k = []\<rparr>, id' = testID, hasValue = True\<rparr>"

definition fourNodeBatch :: changeSummary where
  "fourNodeBatch =
     [(ToKey [], \<lparr>after = \<lparr>value_db = None,
                           children_db = [(0x61, plainChild), (0x62, plainChild)]\<rparr>\<rparr>),
      (ToKey [0x61], \<lparr>after = \<lparr>value_db = Some [1], children_db = []\<rparr>\<rparr>),
      (ToKey [0x62], \<lparr>after = \<lparr>value_db = None, children_db = [(0x63, plainChild)]\<rparr>\<rparr>),
      (ToKey [0x62, 0x63], \<lparr>after = \<lparr>value_db = Some [3], children_db = []\<rparr>\<rparr>)]"

definition unchangedChildrenBatch :: changeSummary where
  "unchangedChildrenBatch =
     [(ToKey [], \<lparr>after = \<lparr>value_db = Some [9],
                           children_db = [(0x61, plainChild),
                                          (0x62, \<lparr>compressedKey = \<lparr>length_k = 16, value_k = [0x78, 0x79]\<rparr>,
                                                   id' = testID, hasValue = True\<rparr>)]\<rparr>\<rparr>)]"


section \<open>Big-endian round trip\<close>

lemma bit_byte_at:
  "k \<le> 56 \<Longrightarrow>
   bit (push_bit k (ucast (ucast (drop_bit k (v::uint64)) :: byte) :: uint64)) n
     \<longleftrightarrow> (k \<le> n \<and> n < k + 8 \<and> bit v n)"
  by (auto simp add: bit_simps)

lemma Uint64_PutUint64: "Uint64 (PutUint64 v @ r) = Inr v"
proof -
  let ?b = "PutUint64 v @ r"
  let ?w = "(ucast (?b ! 7) OR push_bit 8 (ucast (?b ! 6)) OR push_bit 16 (ucast (?b ! 5))
        OR push_bit 24 (ucast (?b ! 4)) OR push_bit 32 (ucast (?b ! 3))
        OR push_bit 40 (ucast (?b ! 2)) OR push_bit 48 (ucast (?b ! 1))
        OR push_bit 56 (ucast (?b ! 0))) :: uint64"
  have len: "\<not> length ?b < 8"
    by (simp add: PutUint64_def)
  have "?w = v"
  proof (rule bit_word_eqI)
    fix n assume n: "n < LENGTH(64)"
    have b0: "bit (ucast (ucast v :: byte) :: uint64) n \<longleftrightarrow> (n < 8 \<and> bit v n)"
      using bit_byte_at [of 0 v n] by simp
    from n have "n < 8 \<or> (8 \<le> n \<and> n < 16) \<or> (16 \<le> n \<and> n < 24) \<or> (24 \<le> n \<and> n < 32)
        \<or> (32 \<le> n \<and> n < 40) \<or> (40 \<le> n \<and> n < 48) \<or> (48 \<le> n \<and> n < 56)
        \<or> (56 \<le> n \<and> n < 64)"
      by simp arith
    then show "bit ?w n = bit v n"
      unfolding PutUint64_def
      by (simp add: bit_or_iff bit_byte_at b0) arith
  qed
  with len show ?thesis
    unfolding Uint64_def by (simp only: if_False)
qed

lemma length_PutUint64: "length (PutUint64 v) = 8"
  by (simp add: PutUint64_def)

lemma drop_8_PutUint64: "drop 8 (PutUint64 v @ r) = r"
  by (simp add: PutUint64_def)

lemma unat_byte_of: "unat (ucast (drop_bit k (v::uint64)) :: byte) = unat v div 2 ^ k mod 256"
  by (simp only: unsigned_ucast_eq unat_drop_bit_eq) (simp add: take_bit_eq_mod drop_bit_eq_div)

lemma unat_drop_bit_div: "unat (drop_bit k (v::uint64)) = unat v div 2 ^ k"
  by (simp only: unat_drop_bit_eq) (simp add: drop_bit_eq_div)

lemma unat_byte_of0: "unat (ucast (v::uint64) :: byte) = unat v mod 256"
  using unat_byte_of [of 0 v] by simp

lemma digit_step: "(x::nat) mod (b * 256) = x div b mod 256 * b + x mod b"
  by (simp add: mod_mult2_eq)

lemma base256_digits:
  fixes x :: nat
  assumes "x < 2 ^ 64"
  shows "x div 2 ^ 56 mod 256 * 256 ^ 7 + x div 2 ^ 48 mod 256 * 256 ^ 6
       + x div 2 ^ 40 mod 256 * 256 ^ 5 + x div 2 ^ 32 mod 256 * 256 ^ 4
       + x div 2 ^ 24 mod 256 * 256 ^ 3 + x div 2 ^ 16 mod 256 * 256 ^ 2
       + x div 2 ^ 8 mod 256 * 256 + x mod 256 = x"
proof -
  have s8: "x mod 2 ^ 64 = x div 2 ^ 56 mod 256 * 2 ^ 56 + x mod 2 ^ 56"
    using digit_step [of x "2 ^ 56"] by simp
  have s7: "x mod 2 ^ 56 = x div 2 ^ 48 mod 256 * 2 ^ 48 + x mod 2 ^ 48"
    using digit_step [of x "2 ^ 48"] by simp
  have s6: "x mod 2 ^ 48 = x div 2 ^ 40 mod 256 * 2 ^ 40 + x mod 2 ^ 40"
    using digit_step [of x "2 ^ 40"] by simp
  have s5: "x mod 2 ^ 40 = x div 2 ^ 32 mod 256 * 2 ^ 32 + x mod 2 ^ 32"
    using digit_step [of x "2 ^ 32"] by simp
  have s4: "x mod 2 ^ 32 = x div 2 ^ 24 mod 256 * 2 ^ 24 + x mod 2 ^ 24"
    using digit_step [of x "2 ^ 24"] by simp
  have s3: "x mod 2 ^ 24 = x div 2 ^ 16 mod 256 * 2 ^ 16 + x mod 2 ^ 16"
    using digit_step [of x "2 ^ 16"] by simp
  have s2: "x mod 2 ^ 16 = x div 2 ^ 8 mod 256 * 2 ^ 8 + x mod 2 ^ 8"
    using digit_step [of x "2 ^ 8"] by simp
  have s0: "x mod 2 ^ 64 = x" using assms by simp
  have "x mod 2 ^ 64 = x div 2 ^ 56 mod 256 * 2 ^ 56 + (x div 2 ^ 48 mod 256 * 2 ^ 48
     + (x div 2 ^ 40 mod 256 * 2 ^ 40 + (x div 2 ^ 32 mod 256 * 2 ^ 32
     + (x div 2 ^ 24 mod 256 * 2 ^ 24 + (x div 2 ^ 16 mod 256 * 2 ^ 16
     + (x div 2 ^ 8 mod 256 * 2 ^ 8 + x mod 2 ^ 8))))))"
    by (simp only: s8 s7 s6 s5 s4 s3 s2)
  moreover have "x div 2 ^ 56 < 256" using assms by simp
  ultimately show ?thesis using s0 by simp
qed

lemma PutUint64_value:
  "(\<Sum>i<8. unat (PutUint64 v ! i) * 256 ^ (7 - i)) = unat v"
proof -
  have lt: "unat v < 2 ^ 64" using unsigned_less [of v] by simp
  have eight: "{..<8::nat} = {0,1,2,3,4,5,6,7}" by auto
  show ?thesis
    unfolding eight PutUint64_def
    using base256_digits [OF lt]
    by (simp add: unat_byte_of unat_byte_of0 unat_drop_bit_div)
qed

text \<open>
  C10. For every disk address \<open>a\<close>, \<open>bytes\<close> yields exactly 16 bytes: the first eight
  are the big-endian bytes of the offset, the last eight the big-endian bytes of the size
  (each group read as a base-256 number, most significant byte first, gives the field
  back), and \<open>decode\<close> on those 16 bytes recovers \<open>a\<close>.
\<close>

theorem diskAddress_bytes_decode_roundtrip:
  "length (bytes a) = 16
   \<and> (\<Sum>i<8. unat (bytes a ! i) * 256 ^ (7 - i)) = unat (offset a)
   \<and> (\<Sum>i<8. unat (bytes a ! (8 + i)) * 256 ^ (7 - i)) = unat (size' a)
   \<and> decode (bytes a) = Inr a"
proof -
  have l: "length (bytes a) = 16"
    by (simp add: bytes_def length_PutUint64)
  have "(\<Sum>i<8. unat (bytes a ! i) * 256 ^ (7 - i))
        = (\<Sum>i<8. unat (PutUint64 (offset a) ! i) * 256 ^ (7 - i))"
    by (rule sum.cong) (simp_all add: bytes_def nth_append length_PutUint64)
  then have o: "(\<Sum>i<8. unat (bytes a ! i) * 256 ^ (7 - i)) = unat (offset a)"
    by (simp only: PutUint64_value)
  have "(\<Sum>i<8. unat (bytes a ! (8 + i)) * 256 ^ (7 - i))
        = (\<Sum>i<8. unat (PutUint64 (size' a) ! i) * 256 ^ (7 - i))"
    by (rule sum.cong) (simp_all add: bytes_def nth_append length_PutUint64)
  then have s: "(\<Sum>i<8. unat (bytes a ! (8 + i)) * 256 ^ (7 - i)) = unat (size' a)"
    by (simp only: PutUint64_value)
  have "Uint64 (PutUint64 (size' a)) = Inr (size' a)"
    using Uint64_PutUint64 [of "size' a" "[]"] by simp
  then have d: "decode (bytes a) = Inr a"
    by (simp add: decode_def bytes_def Uint64_PutUint64 length_PutUint64)
  from l o s d show ?thesis by blast
qed


section \<open>Determinism of the encoding\<close>

lemma keys_of_map:
  assumes "distinct (map fst xs)" "distinct (map fst ys)" "map_of xs = map_of ys"
  shows "sort (map fst xs) = sort (map fst ys)" and "length xs = length ys"
proof -
  have s: "set (map fst xs) = set (map fst ys)"
    using assms(3) by (metis dom_map_of_conv_image_fst list.set_map)
  show "sort (map fst xs) = sort (map fst ys)"
    by (rule sorted_distinct_set_unique) (use assms s in simp_all)
  have "length (map fst xs) = length (map fst ys)"
    using assms(1,2) s by (metis distinct_card)
  then show "length xs = length ys" by simp
qed

text \<open>
  C9. Two nodes that are logically equal (the same value, and children lists that are the
  same map, whatever the order in which the map is iterated) have byte-identical
  encodings, for any writer methods: the encoder sorts the indices before it emits the
  children.
\<close>

theorem encodeDiskBranchNode_deterministic:
  assumes "value_n n1 = value_n n2"
    and "distinct (map fst (children n1))" and "distinct (map fst (children n2))"
    and "map_of (children n1) = map_of (children n2)"
  shows "encodeDiskBranchNode c n1 = encodeDiskBranchNode c n2"
  using assms keys_of_map [OF assms(2,3,4)]
  by (simp add: encodeDiskBranchNode_def Let_def)

theorem encodeDiskBranchNode_deterministic_witness:
  "value_n branchNode2 = value_n branchNode2'
   \<and> distinct (map fst (children branchNode2))
   \<and> distinct (map fst (children branchNode2'))
   \<and> map_of (children branchNode2) = map_of (children branchNode2')
   \<and> children branchNode2 \<noteq> children branchNode2'
   \<and> encodeDiskBranchNode specCodec branchNode2 = encodeDiskBranchNode specCodec branchNode2'"
proof -
  have h1: "value_n branchNode2 = value_n branchNode2'"
    by (simp add: branchNode2_def branchNode2'_def)
  have h2: "distinct (map fst (children branchNode2))"
    by (simp add: branchNode2_def)
  have h3: "distinct (map fst (children branchNode2'))"
    by (simp add: branchNode2'_def)
  have h4: "map_of (children branchNode2) = map_of (children branchNode2')"
    by (rule ext) (simp add: branchNode2_def branchNode2'_def)
  have h5: "children branchNode2 \<noteq> children branchNode2'"
    by (simp add: branchNode2_def branchNode2'_def)
  from h1 h2 h3 h4 h5 encodeDiskBranchNode_deterministic [OF h1 h2 h3 h4, of specCodec]
  show ?thesis by blast
qed

section \<open>When decoding fails\<close>

lemma indices_ok_Cons:
  "indices_ok started prev (x # xs) \<longleftrightarrow>
     \<not> ((started \<and> x \<le> prev) \<or> x > 255) \<and> indices_ok True x xs"
  by (auto simp: indices_ok_def)

lemma decodeChildren_imp_readEntries:
  "decodeChildren c N i prev b cs = Inr (rest, cs') \<Longrightarrow> i \<le> N \<Longrightarrow>
   \<exists>es. readEntries c (N - i) b = Inr (es, rest) \<and> indices_ok (i \<noteq> 0) prev (map fst es)"
proof (induction "N - i" arbitrary: i prev b cs)
  case 0
  then have "i = N" by simp
  with 0 show ?case
    by (simp add: decodeChildren.simps [of c N N] indices_ok_def)
next
  case (Suc k)
  then have lt: "i < N" and k: "k = N - (i + 1)" and le: "i + 1 \<le> N" by simp_all
  from Suc.prems(1) lt obtain index b1 ck b2 cid b3 hv b4 off b5 sz b6 where
    r: "rUvarint c b = Inr (index, b1)" "rKey c b1 = Inr (ck, b2)" "rID c b2 = Inr (cid, b3)"
       "rBool c b3 = Inr (hv, b4)" "rUvarint c b4 = Inr (off, b5)" "rUvarint c b5 = Inr (sz, b6)"
    and chk: "\<not> ((i \<noteq> 0 \<and> index \<le> prev) \<or> index > 255)"
    and rec: "decodeChildren c N (i + 1) index b6
        (AList.update (ucast index)
           \<lparr>child = \<lparr>compressedKey = ck, id' = cid, hasValue = hv\<rparr>,
            address = \<lparr>offset = off, size' = sz\<rparr>\<rparr> cs) = Inr (rest, cs')"
    by (subst (asm) decodeChildren.simps) (auto split: sum.splits prod.splits if_splits)
  from Suc.hyps(1) [OF k rec le] obtain es where
    es: "readEntries c (N - (i + 1)) b6 = Inr (es, rest)" "indices_ok True index (map fst es)"
    by auto
  have "N - i = Suc (N - (i + 1))" using lt by simp
  then show ?case
    using r chk es by (simp add: readEntryFields_def indices_ok_Cons)
qed

lemma readEntries_imp_decodeChildren:
  "readEntries c (N - i) b = Inr (es, rest) \<Longrightarrow> indices_ok (i \<noteq> 0) prev (map fst es) \<Longrightarrow>
   i \<le> N \<Longrightarrow> \<exists>cs'. decodeChildren c N i prev b cs = Inr (rest, cs')"
proof (induction "N - i" arbitrary: i prev b cs es)
  case 0
  then have "i = N" by simp
  with 0 show ?case
    by (simp add: decodeChildren.simps [of c N N])
next
  case (Suc k)
  then have lt: "i < N" and k: "k = N - (i + 1)" and le: "i + 1 \<le> N" by simp_all
  have Ni: "N - i = Suc (N - (i + 1))" using lt by simp
  from Suc.prems(1) obtain index b1 ck b2 cid b3 hv b4 off b5 sz b6 es' where
    r: "rUvarint c b = Inr (index, b1)" "rKey c b1 = Inr (ck, b2)" "rID c b2 = Inr (cid, b3)"
       "rBool c b3 = Inr (hv, b4)" "rUvarint c b4 = Inr (off, b5)" "rUvarint c b5 = Inr (sz, b6)"
    and es: "es = (index, \<lparr>child = \<lparr>compressedKey = ck, id' = cid, hasValue = hv\<rparr>,
            address = \<lparr>offset = off, size' = sz\<rparr>\<rparr>) # es'"
    and rec: "readEntries c (N - (i + 1)) b6 = Inr (es', rest)"
    unfolding Ni by (auto simp: readEntryFields_def split: sum.splits prod.splits)
  from Suc.prems(2) es have chk: "\<not> ((i \<noteq> 0 \<and> index \<le> prev) \<or> index > 255)"
    and ok': "indices_ok (i + 1 \<noteq> 0) index (map fst es')"
    by (simp_all add: indices_ok_Cons)
  from Suc.hyps(1) [OF k rec ok' le] obtain cs' where
    "decodeChildren c N (i + 1) index b6
        (AList.update (ucast index)
           \<lparr>child = \<lparr>compressedKey = ck, id' = cid, hasValue = hv\<rparr>,
            address = \<lparr>offset = off, size' = sz\<rparr>\<rparr> cs) = Inr (rest, cs')"
    by blast
  then show ?case
    using r chk lt by (subst decodeChildren.simps) simp
qed

lemma too_many_iff: "(numChildren :: uint64) > of_nat BranchFactorLargest \<longleftrightarrow> unat numChildren > BranchFactorLargest"
  by (simp add: BranchFactorLargest_def word_less_nat_alt)

lemma decodeChildren_error_iff:
  "(\<exists>e. decodeChildren c N 0 0 b [] = Inl e) \<longleftrightarrow>
     (case readEntries c N b of
        Inl e \<Rightarrow> True
      | Inr (es, rest) \<Rightarrow>
          \<not> sorted_wrt (<) (map fst es) \<or> (\<exists>index \<in> set (map fst es). index > 255))"
proof (cases "decodeChildren c N 0 0 b []")
  case (Inl e)
  have "\<not> (\<exists>es rest. readEntries c N b = Inr (es, rest) \<and> indices_ok False 0 (map fst es))"
  proof
    assume "\<exists>es rest. readEntries c N b = Inr (es, rest) \<and> indices_ok False 0 (map fst es)"
    then obtain es rest where "readEntries c (N - 0) b = Inr (es, rest)"
      and "indices_ok (0 \<noteq> (0::nat)) 0 (map fst es)" by auto
    from readEntries_imp_decodeChildren [OF this, of "[]"] Inl show False by simp
  qed
  with Inl show ?thesis
    by (fastforce simp: indices_ok_def not_le split: sum.splits)
next
  case (Inr p)
  then obtain rest cs' where "decodeChildren c N 0 0 b [] = Inr (rest, cs')"
    by (cases p) auto
  from decodeChildren_imp_readEntries [OF this] Inr show ?thesis
    by (fastforce simp: indices_ok_def not_less)
qed

lemma decodeChildren_rest:
  "decodeChildren c N 0 0 b [] = Inr (rest, cs') \<Longrightarrow> \<exists>es. readEntries c N b = Inr (es, rest)"
  using decodeChildren_imp_readEntries [of c N 0 0 b "[]" rest cs'] by auto

text \<open>
  C7. \<open>decodeDiskBranchNode\<close> returns an error exactly when the bytes are structurally
  invalid in the specification's sense (\<open>MalformedEncoding\<close>: a truncated field, a child
  count above the largest branch factor, indices not strictly increasing, an index above
  255, or trailing bytes); on every other input it returns a node. This holds for any
  reader methods, a field counting as truncated when its reader reports an error.
\<close>

theorem decodeDiskBranchNode_error_iff_malformed:
  "(\<exists>e. decodeDiskBranchNode c b = Inl e) \<longleftrightarrow> MalformedEncoding c b"
proof (cases "rMaybeBytes c b")
  case (Inl e)
  then show ?thesis by (simp add: decodeDiskBranchNode_def MalformedEncoding_def)
next
  case (Inr p)
  then obtain v b1 where v: "rMaybeBytes c b = Inr (v, b1)" by (cases p) auto
  show ?thesis
  proof (cases "rUvarint c b1")
    case (Inl e)
    with v show ?thesis by (simp add: decodeDiskBranchNode_def MalformedEncoding_def)
  next
    case (Inr q)
    then obtain numChildren b2 where n: "rUvarint c b1 = Inr (numChildren, b2)" by (cases q) auto
    show ?thesis
    proof (cases "unat numChildren > BranchFactorLargest")
      case True
      with v n show ?thesis
        by (simp add: decodeDiskBranchNode_def MalformedEncoding_def too_many_iff)
    next
      case False
      show ?thesis
      proof (cases "decodeChildren c (unat numChildren) 0 0 b2 []")
        case (Inl e)
        with decodeChildren_error_iff [of c "unat numChildren" b2] v n False show ?thesis
          by (auto simp: decodeDiskBranchNode_def MalformedEncoding_def too_many_iff split: sum.splits)
      next
        case (Inr r)
        then obtain rest cs' where d: "decodeChildren c (unat numChildren) 0 0 b2 [] = Inr (rest, cs')"
          by (cases r) auto
        from decodeChildren_rest [OF d] obtain es where
          es: "readEntries c (unat numChildren) b2 = Inr (es, rest)" by blast
        from decodeChildren_error_iff [of c "unat numChildren" b2] d es
        have "\<not> (\<not> sorted_wrt (<) (map fst es) \<or> (\<exists>index \<in> set (map fst es). index > 255))"
          by simp
        with v n False d es show ?thesis
          by (simp add: decodeDiskBranchNode_def MalformedEncoding_def too_many_iff)
      qed
    qed
  qed
qed

section \<open>Decoding an encoded node\<close>

lemma unat_ucast_byte: "unat (ucast (k::byte) :: uint64) = unat k"
proof -
  have "unat k < 2 ^ 8" using unsigned_less [of k] by simp
  then have "unat k < 2 ^ 64" by simp
  then show ?thesis by (simp add: unsigned_ucast_eq take_bit_nat_eq_self_iff)
qed

lemma ucast_byte_le_255: "\<not> (ucast (k::byte) :: uint64) > 255"
  using unsigned_less [of k, where 'a=nat] by (simp add: word_less_nat_alt unat_ucast_byte)

lemma ucast_byte_less_iff: "(ucast (a::byte) :: uint64) \<le> ucast (b::byte) \<longleftrightarrow> a \<le> b"
  by (simp add: word_le_nat_alt unat_ucast_byte)

lemma ucast_ucast_byte: "(ucast (ucast (k::byte) :: uint64) :: byte) = k"
  by (simp add: ucast_up_ucast_id is_up)

lemma distinct_bytes_length: "distinct (ks :: byte list) \<Longrightarrow> length ks \<le> 256"
proof -
  assume "distinct ks"
  then have "length ks = card (set ks)" by (simp add: distinct_card)
  also have "\<dots> \<le> card (UNIV :: byte set)" by (rule card_mono) simp_all
  also have "\<dots> = 256" by (simp add: card_word)
  finally show ?thesis .
qed

lemma update_fresh: "k \<notin> fst ` set al \<Longrightarrow> AList.update k v al = al @ [(k, v)]"
  by (induction al) auto

lemma foldl_encode:
  "set ks \<subseteq> dom m \<Longrightarrow>
   foldl (\<lambda>b index. case m index of None \<Rightarrow> b | Some entry \<Rightarrow> b @ encodeEntry c index entry) b0 ks
     = b0 @ concat (map (\<lambda>k. encodeEntry c k (the (m k))) ks)"
  by (induction ks arbitrary: b0) auto

lemma decodeChildren_encoded:
  assumes rt: "codecRoundTrip c okKey"
  shows "sorted_wrt (<) ks \<Longrightarrow> i + length ks = N \<Longrightarrow>
     (\<forall>k \<in> set ks. okKey (compressedKey (child (f k))) \<and> length (id' (child (f k))) = 32) \<Longrightarrow>
     (i \<noteq> 0 \<longrightarrow> (\<forall>k \<in> set ks. prev < ucast k)) \<Longrightarrow>
     (\<forall>a \<in> fst ` set acc. \<forall>k \<in> set ks. a < k) \<Longrightarrow>
     decodeChildren c N i prev (concat (map (\<lambda>k. encodeEntry c k (f k)) ks) @ rest) acc
       = Inr (rest, acc @ map (\<lambda>k. (k, f k)) ks)"
proof (induction ks arbitrary: i prev acc)
  case Nil
  then show ?case by (simp add: decodeChildren.simps [of c N N])
next
  case (Cons k ks)
  let ?e = "f k"
  let ?acc' = "AList.update k ?e acc"
  from Cons.prems have lt: "i < N" by simp
  from Cons.prems have chk: "\<not> ((i \<noteq> 0 \<and> ucast k \<le> prev) \<or> (ucast k :: uint64) > 255)"
    by (auto simp: ucast_byte_le_255 not_le)
  from Cons.prems have fresh: "k \<notin> fst ` set acc" by auto
  then have acc': "?acc' = acc @ [(k, ?e)]" by (rule update_fresh)
  from Cons.prems have ok: "okKey (compressedKey (child ?e))" "length (id' (child ?e)) = 32"
    by simp_all
  have e: "\<lparr>child = \<lparr>compressedKey = compressedKey (child ?e), id' = id' (child ?e),
              hasValue = hasValue (child ?e)\<rparr>,
            address = \<lparr>offset = offset (address ?e), size' = size' (address ?e)\<rparr>\<rparr> = ?e"
    by simp
  have IH: "decodeChildren c N (i + 1) (ucast k)
       (concat (map (\<lambda>k. encodeEntry c k (f k)) ks) @ rest) ?acc'
       = Inr (rest, ?acc' @ map (\<lambda>k. (k, f k)) ks)"
  proof (rule Cons.IH)
    show "sorted_wrt (<) ks" using Cons.prems by simp
    show "i + 1 + length ks = N" using Cons.prems by simp
    show "\<forall>k \<in> set ks. okKey (compressedKey (child (f k))) \<and> length (id' (child (f k))) = 32"
      using Cons.prems by simp
    show "i + 1 \<noteq> 0 \<longrightarrow> (\<forall>k' \<in> set ks. (ucast k :: uint64) < ucast k')"
      using Cons.prems(1) by (auto simp: word_less_nat_alt unat_ucast_byte)
    show "\<forall>a \<in> fst ` set ?acc'. \<forall>k' \<in> set ks. a < k'"
      using Cons.prems(1,5) by (auto simp: acc')
  qed
  from rt ok have r:
    "\<And>x rest. rUvarint c (wUvarint c x @ rest) = Inr (x, rest)"
    "\<And>rest. rKey c (wKey c (compressedKey (child ?e)) @ rest) = Inr (compressedKey (child ?e), rest)"
    "\<And>rest. rID c (wID c (id' (child ?e)) @ rest) = Inr (id' (child ?e), rest)"
    "\<And>b rest. rBool c (wBool c b @ rest) = Inr (b, rest)"
    by (simp_all add: codecRoundTrip_def)
  show ?case
    apply (subst decodeChildren.simps)
    using lt chk IH
    apply (simp add: encodeEntry_def r ucast_ucast_byte e acc' [symmetric] del: One_nat_def)
    done
qed


lemma encodeDiskBranchNode_layout:
  assumes "distinct (map fst (children n))"
  shows "encodeDiskBranchNode c n =
     wMaybeBytes c (value_n n) @ wUvarint c (of_nat (length (children n)))
     @ concat (map (\<lambda>k. encodeEntry c k (the (map_of (children n) k)))
                   (sort (map fst (children n))))"
proof -
  have "set (sort (map fst (children n))) \<subseteq> dom (map_of (children n))"
    by (simp add: dom_map_of_conv_image_fst)
  from foldl_encode [OF this] show ?thesis
    by (cases "children n") (simp_all add: encodeDiskBranchNode_def Let_def)
qed

lemma map_of_sorted_entries:
  "map_of (map (\<lambda>k. (k, the (map_of cs k))) (sort (map fst cs))) = map_of cs"
proof
  fix k
  show "map_of (map (\<lambda>k. (k, the (map_of cs k))) (sort (map fst cs))) k = map_of cs k"
  proof (cases "k \<in> fst ` set cs")
    case True
    then obtain v where "map_of cs k = Some v"
      by (metis domD dom_map_of_conv_image_fst)
    with True show ?thesis by (simp add: map_of_map_restrict restrict_map_def)
  next
    case False
    then have "map_of cs k = None" by (simp add: map_of_eq_None_iff)
    with False show ?thesis by (simp add: map_of_map_restrict restrict_map_def)
  qed
qed

text \<open>
  C6. For every valid node, decoding the bytes produced by encoding it succeeds and gives
  a node with the same value and the same children map (each index with its
  compressedKey, id, hasValue flag and disk address), listed in ascending index order.
  The codec helpers are any whose readers invert their writers; the addresses may be any
  64-bit values, non-negative or not.
\<close>

theorem decode_encode_roundtrip:
  assumes rt: "codecRoundTrip c okKey" and valid: "validNode okKey n"
  shows "\<exists>n'. decodeDiskBranchNode c (encodeDiskBranchNode c n) = Inr n'
           \<and> value_n n' = value_n n
           \<and> map_of (children n') = map_of (children n)
           \<and> map fst (children n') = sort (map fst (children n))"
proof -
  let ?cs = "children n"
  let ?ks = "sort (map fst ?cs)"
  let ?f = "\<lambda>k. the (map_of ?cs k)"
  let ?body = "concat (map (\<lambda>k. encodeEntry c k (?f k)) ?ks)"
  from valid have d: "distinct (map fst ?cs)" by (simp add: validNode_def)
  have len: "length ?cs \<le> 256"
    using distinct_bytes_length [OF d] by simp
  then have un: "unat (of_nat (length ?cs) :: uint64) = length ?cs"
    by (simp add: unat_of_nat take_bit_nat_eq_self_iff)
  have notmany: "\<not> (of_nat (length ?cs) :: uint64) > of_nat BranchFactorLargest"
    using len by (simp add: word_less_nat_alt un BranchFactorLargest_def)
  have fields: "\<forall>k \<in> set ?ks. okKey (compressedKey (child (?f k))) \<and> length (id' (child (?f k))) = 32"
  proof
    fix k assume "k \<in> set ?ks"
    then have "k \<in> fst ` set ?cs" by simp
    then obtain v where v: "map_of ?cs k = Some v"
      by (metis domD dom_map_of_conv_image_fst)
    then have "(k, v) \<in> set ?cs" by (rule map_of_SomeD)
    with valid v show "okKey (compressedKey (child (?f k))) \<and> length (id' (child (?f k))) = 32"
      by (auto simp: validNode_def)
  qed
  have dc: "decodeChildren c (length ?cs) 0 0 (?body @ []) []
        = Inr ([], [] @ map (\<lambda>k. (k, ?f k)) ?ks)"
    by (rule decodeChildren_encoded [OF rt]) (use d fields in \<open>simp_all add: strict_sorted_iff\<close>)
  from valid have vok: "\<forall>bs. value_n n = Some bs \<longrightarrow> length bs < 2 ^ 64"
    by (simp add: validNode_def)
  from rt vok have r:
    "\<And>rest. rMaybeBytes c (wMaybeBytes c (value_n n) @ rest) = Inr (value_n n, rest)"
    "\<And>x rest. rUvarint c (wUvarint c x @ rest) = Inr (x, rest)"
    by (simp_all add: codecRoundTrip_def)
  have "decodeDiskBranchNode c (encodeDiskBranchNode c n)
      = Inr \<lparr>value_n = value_n n, children = map (\<lambda>k. (k, ?f k)) ?ks\<rparr>"
    using dc notmany
    by (simp add: encodeDiskBranchNode_layout [OF d] decodeDiskBranchNode_def r un)
  then show ?thesis
    by (simp add: map_of_sorted_entries comp_def)
qed


section \<open>The codec modelled from the specification inverts itself\<close>

lemma bit_127: "bit (127 :: int) k \<longleftrightarrow> k < 7"
proof -
  have e: "(127 :: int) = mask 7" by (simp add: mask_eq_exp_minus_1)
  show ?thesis by (subst e) (simp only: bit_mask_iff possible_bit_int simp_thms)
qed

lemma bit_128: "bit (128 :: int) k \<longleftrightarrow> k = 7"
proof -
  have e: "(128 :: int) = 2 ^ 7" by simp
  show ?thesis by (subst e) (auto simp only: bit_exp_iff possible_bit_int simp_thms)
qed

lemma low7:
  "push_bit s (ucast (ucast (x::uint64) AND (0x7f::byte)) :: uint64) OR push_bit (s + 7) (drop_bit 7 x)
     = push_bit s x"
proof (rule bit_word_eqI)
  fix n assume n: "n < LENGTH(64)"
  show "bit (push_bit s (ucast (ucast x AND (0x7f::byte)) :: uint64) OR push_bit (s + 7) (drop_bit 7 x)) n
      = bit (push_bit s x) n"
  proof (cases "s + 7 \<le> n")
    case True
    then have "7 + (n - (s + 7)) = n - s" by simp
    with True n show ?thesis by (auto simp add: bit_simps bit_127)
  next
    case False
    with n show ?thesis by (auto simp add: bit_simps bit_127)
  qed
qed

lemma small_byte: "x < 0x80 \<Longrightarrow> (ucast (ucast (x::uint64) :: byte) :: uint64) = x"
proof -
  assume "x < 0x80"
  then have "unat x < 128" by (simp add: word_less_nat_alt)
  then have "unat x < 2 ^ 8" by simp
  then show ?thesis
    by (intro word_unat_eq_iff [THEN iffD2])
      (simp add: unsigned_ucast_eq unsigned_take_bit_eq take_bit_nat_eq_self_iff)
qed

lemma small_byte_lt: "x < 0x80 \<Longrightarrow> (ucast (x::uint64) :: byte) < 0x80"
proof -
  assume "x < 0x80"
  then have lt: "unat x < 128" by (simp add: word_less_nat_alt)
  then have "unat x < 2 ^ 8" by simp
  then have "take_bit 8 (unat x) = unat x" by (simp add: take_bit_nat_eq_self_iff)
  with lt show ?thesis
    by (simp add: word_less_nat_alt unsigned_ucast_eq)
qed

lemma high_bit_set: "\<not> ((b::byte) OR 0x80) < 0x80"
proof -
  have "(0x80::byte) \<le> 0x80 OR b" by (rule le_word_or2)
  then show ?thesis by (simp add: or.commute)
qed

lemma or_and_7f: "((b::byte) OR 0x80) AND 0x7f = b AND 0x7f"
  by (rule bit_word_eqI) (auto simp add: bit_simps bit_127 bit_128)

lemma specUvarintFrom_W:
  "specUvarintFrom s acc (specUvarintW x @ rest) = Inr (acc OR push_bit s x, rest)"
proof (induction x arbitrary: s acc rule: specUvarintW.induct)
  case (1 x)
  show ?case
  proof (cases "x \<ge> 0x80")
    case True
    have "specUvarintFrom s acc (specUvarintW x @ rest)
        = specUvarintFrom (s + 7) (acc OR push_bit s (ucast (ucast x AND (0x7f::byte))))
            (specUvarintW (drop_bit 7 x) @ rest)"
      using True by (subst specUvarintW.simps) (simp add: high_bit_set or_and_7f)
    also have "\<dots> = Inr ((acc OR push_bit s (ucast (ucast x AND (0x7f::byte))))
          OR push_bit (s + 7) (drop_bit 7 x), rest)"
      using True by (rule "1.IH")
    finally show ?thesis by (simp add: or.assoc low7)
  next
    case False
    then have lt: "x < 0x80" by simp
    show ?thesis
      using False lt by (subst specUvarintW.simps) (simp add: small_byte small_byte_lt)
  qed
qed

lemma specUvarint_roundtrip: "specUvarintR (specUvarintW x @ rest) = Inr (x, rest)"
  by (simp add: specUvarintR_def specUvarintFrom_W)

lemma specBool_roundtrip: "specBoolR (specBoolW b @ rest) = Inr (b, rest)"
  by (simp add: specBoolW_def)

lemma specBytes_roundtrip:
  "length bs < 2 ^ 64 \<Longrightarrow> specBytesR (specBytesW bs @ rest) = Inr (bs, rest)"
  by (simp add: specBytesR_def specBytesW_def specUvarint_roundtrip unat_of_nat
      take_bit_nat_eq_self_iff)

lemma specMaybeBytes_roundtrip:
  "(\<forall>bs. v = Some bs \<longrightarrow> length bs < 2 ^ 64) \<Longrightarrow>
   specMaybeBytesR (specMaybeBytesW v @ rest) = Inr (v, rest)"
  by (cases v) (simp_all add: specMaybeBytesR_def specMaybeBytesW_def specBool_roundtrip
      specBytes_roundtrip)

lemma specKey_roundtrip:
  "specOkKey k \<Longrightarrow> specKeyR (specKeyW k @ rest) = Inr (k, rest)"
proof -
  assume ok: "specOkKey k"
  then have "unat (of_int (length_k k) :: uint64) = nat (length_k k)"
    by (simp add: specOkKey_def unat_eq_nat_uint uint_word_of_int take_bit_int_eq_self_iff
        flip: take_bit_eq_mod)
  with ok show ?thesis
    by (simp add: specKeyR_def specKeyW_def specUvarint_roundtrip specOkKey_def)
qed

lemma specID_roundtrip: "length i = 32 \<Longrightarrow> specIDR (specIDW i @ rest) = Inr (i, rest)"
  by (simp add: specIDR_def specIDW_def)

lemma specCodec_roundtrip: "codecRoundTrip specCodec specOkKey"
  by (simp add: codecRoundTrip_def specCodec_def specMaybeBytes_roundtrip specUvarint_roundtrip
      specKey_roundtrip specID_roundtrip specBool_roundtrip)



section \<open>Witnesses over the modelled codec\<close>

theorem decode_encode_roundtrip_witness:
  "codecRoundTrip specCodec specOkKey \<and> validNode specOkKey branchNode2
   \<and> (\<exists>n'. decodeDiskBranchNode specCodec (encodeDiskBranchNode specCodec branchNode2) = Inr n'
          \<and> value_n n' = value_n branchNode2
          \<and> map_of (children n') = map_of (children branchNode2)
          \<and> map fst (children n') = sort (map fst (children branchNode2)))"
proof -
  have v: "validNode specOkKey branchNode2"
    by (simp add: validNode_def branchNode2_def child1_def child2_def specOkKey_def
        bytesNeeded_def testID_def)
  from specCodec_roundtrip v decode_encode_roundtrip [OF specCodec_roundtrip v]
  show ?thesis by blast
qed

theorem decodeDiskBranchNode_error_iff_malformed_witness:
  "\<not> MalformedEncoding specCodec encodedNode1
   \<and> (\<exists>n. decodeDiskBranchNode specCodec encodedNode1 = Inr n)
   \<and> MalformedEncoding specCodec (encodedNode1 @ [0])
   \<and> (\<exists>e. decodeDiskBranchNode specCodec (encodedNode1 @ [0]) = Inl e)
   \<and> MalformedEncoding specCodec swappedNode2
   \<and> (\<exists>e. decodeDiskBranchNode specCodec swappedNode2 = Inl e)
   \<and> MalformedEncoding specCodec (butlast encodedNode1)
   \<and> (\<exists>e. decodeDiskBranchNode specCodec (butlast encodedNode1) = Inl e)"
proof -
  have m1: "\<not> MalformedEncoding specCodec encodedNode1" by code_simp
  have m2: "MalformedEncoding specCodec (encodedNode1 @ [0])" by code_simp
  have m3: "MalformedEncoding specCodec swappedNode2" by code_simp
  have m4: "MalformedEncoding specCodec (butlast encodedNode1)" by code_simp
  from m1 decodeDiskBranchNode_error_iff_malformed [of specCodec encodedNode1]
  have "\<exists>n. decodeDiskBranchNode specCodec encodedNode1 = Inr n"
    by (cases "decodeDiskBranchNode specCodec encodedNode1") auto
  with m1 m2 m3 m4
    decodeDiskBranchNode_error_iff_malformed [of specCodec "encodedNode1 @ [0]"]
    decodeDiskBranchNode_error_iff_malformed [of specCodec swappedNode2]
    decodeDiskBranchNode_error_iff_malformed [of specCodec "butlast encodedNode1"]
  show ?thesis by blast
qed

section \<open>The predicted size against the encoded length\<close>

text \<open>
  With exact size helpers, \<open>encodeDiskBranchNodeSize\<close> exceeds the encoded length by the
  address slack of the children: the two functions agree on a node whose children's
  addresses happen to take 16 bytes as varints, in particular on a node without children,
  and on no other node.
\<close>

lemma foldl_childSize:
  "foldl (\<lambda>sz (index, entry). sz + childSize c index (child entry)) a cs
     = a + (\<Sum>(index, entry)\<leftarrow>cs. childSize c index (child entry))"
  by (induction cs arbitrary: a) (auto simp: algebra_simps)

lemma sum_list_cong_set:
  "(\<And>x. x \<in> set cs \<Longrightarrow> f x = g x) \<Longrightarrow> (\<Sum>x\<leftarrow>cs. f x) = (\<Sum>x\<leftarrow>cs. (g x :: int))"
  by (induction cs) auto

lemma sum_list_sorted_keys:
  assumes "distinct (map fst cs)"
  shows "(\<Sum>k\<leftarrow>sort (map fst cs). g k (the (map_of cs k))) = (\<Sum>(k, e)\<leftarrow>cs. (g k e :: int))"
proof -
  let ?h = "\<lambda>k. g k (the (map_of cs k))"
  have "(\<Sum>k\<leftarrow>sort (map fst cs). ?h k) = sum ?h (set (sort (map fst cs)))"
    using assms by (subst sum.distinct_set_conv_list) simp_all
  also have "\<dots> = sum ?h (set (map fst cs))" by simp
  also have "\<dots> = (\<Sum>k\<leftarrow>map fst cs. ?h k)"
    using assms by (subst sum.distinct_set_conv_list) simp_all
  also have "\<dots> = (\<Sum>x\<leftarrow>cs. ?h (fst x))" by (simp add: comp_def)
  also have "\<dots> = (\<Sum>(k, e)\<leftarrow>cs. g k e)"
  proof (rule sum_list_cong_set)
    fix x assume x: "x \<in> set cs"
    obtain k e where ke: "x = (k, e)" by (cases x)
    with x assms have "map_of cs k = Some e" by simp
    with ke show "?h (fst x) = (case x of (k, e) \<Rightarrow> g k e)" by simp
  qed
  finally show ?thesis .
qed

lemma length_concat_sum: "int (length (concat xss)) = (\<Sum>xs\<leftarrow>xss. int (length xs))"
  by (induction xss) auto

lemma sum_list_split:
  "(\<Sum>(k, e)\<leftarrow>cs. f k e + a - s e)
     = (\<Sum>(k, e)\<leftarrow>cs. f k e) + a * int (length cs) - (\<Sum>(k, e)\<leftarrow>cs. (s e :: int))"
  by (induction cs) (auto simp: algebra_simps)

lemma encodeDiskBranchNodeSize_length:
  assumes ex: "sizeHelpersExact c" and d: "distinct (map fst (children n))"
    and ids: "\<forall>(index, entry) \<in> set (children n). length (id' (child entry)) = 32"
  shows "encodeDiskBranchNodeSize c n
           = int (length (encodeDiskBranchNode c n))
             + (\<Sum>(index, entry)\<leftarrow>children n. addressSlack c entry)"
proof -
  let ?cs = "children n"
  from ex have u: "\<And>x. uintSize c x = int (length (wUvarint c x))"
    and cz: "\<And>index ch. length (id' ch) = 32 \<Longrightarrow> childSize c index ch
            = int (length (wUvarint c (ucast index) @ wKey c (compressedKey ch)
                           @ wID c (id' ch) @ wBool c (hasValue ch)))"
    and vn: "int (length (wMaybeBytes c None)) = boolLen c"
    and vs: "\<And>v. int (length (wMaybeBytes c (Some v)))
            = boolLen c + uintSize c (of_nat (length v)) + int (length v)"
    by (simp_all add: sizeHelpersExact_def)
  have entry: "int (length (encodeEntry c k e))
      = childSize c k (child e) + diskAddressSize - addressSlack c e"
    if "length (id' (child e)) = 32" for k e
    using that by (simp add: encodeEntry_def cz addressSlack_def)
  have "int (length (concat (map (\<lambda>k. encodeEntry c k (the (map_of ?cs k))) (sort (map fst ?cs)))))
      = (\<Sum>k\<leftarrow>sort (map fst ?cs). int (length (encodeEntry c k (the (map_of ?cs k)))))"
    by (simp add: length_concat_sum comp_def)
  also have "\<dots> = (\<Sum>(k, e)\<leftarrow>?cs. int (length (encodeEntry c k e)))"
    by (rule sum_list_sorted_keys [OF d])
  also have "\<dots> = (\<Sum>(k, e)\<leftarrow>?cs. childSize c k (child e) + diskAddressSize - addressSlack c e)"
    by (rule sum_list_cong_set) (use ids entry in auto)
  also have "\<dots> = (\<Sum>(k, e)\<leftarrow>?cs. childSize c k (child e)) + diskAddressSize * int (length ?cs)
                    - (\<Sum>(k, e)\<leftarrow>?cs. addressSlack c e)"
    by (rule sum_list_split)
  finally have body: "int (length (concat (map (\<lambda>k. encodeEntry c k (the (map_of ?cs k)))
                                          (sort (map fst ?cs)))))
      = (\<Sum>(k, e)\<leftarrow>?cs. childSize c k (child e)) + diskAddressSize * int (length ?cs)
        - (\<Sum>(k, e)\<leftarrow>?cs. addressSlack c e)" .
  show ?thesis
    using body
    by (cases "value_n n")
      (simp_all add: encodeDiskBranchNode_layout [OF d] encodeDiskBranchNodeSize_def Let_def
        foldl_childSize u vn vs)
qed

lemma specCodec_sizes: "sizeHelpersExact specCodec"
  by (auto simp: sizeHelpersExact_def specCodec_def specUintSize_def specBoolLen_def
      specBoolW_def specChildSize_def specIDW_def specMaybeBytesW_def specBytesW_def
      specKeyW_def)


text \<open>
  C5. The claim is that the length of the encoding equals \<open>encodeDiskBranchNodeSize\<close> for
  every node. On the node of \<open>TestEncodeDiskBranchNode\<close> the encoder emits 39 bytes (the
  child's address as two one-byte varints) while the size function counts 53 (the same
  address as \<open>diskAddressSize = 16\<close> bytes).
\<close>

theorem encodeDiskBranchNodeSize_branchNode1:
  "encodeDiskBranchNode specCodec branchNode1 = encodedNode1
   \<and> length (encodeDiskBranchNode specCodec branchNode1) = 39
   \<and> encodeDiskBranchNodeSize specCodec branchNode1 = 53"
  by code_simp


section \<open>The lookup loop and the walk\<close>

lemma walk_imp_getNodeLoop:
  "walk c lb r key' n m res \<Longrightarrow> length_k ck = m \<Longrightarrow>
   getNodeLoop c lb r key' n ck = Some res"
proof (induction arbitrary: ck rule: walk.induct)
  case (walk_done matchedLength n)
  then show ?case by (subst getNodeLoop.simps) simp
next
  case (walk_no_child matchedLength n)
  then show ?case by (subst getNodeLoop.simps) simp
next
  case (walk_mismatch matchedLength n e)
  then show ?case by (subst getNodeLoop.simps) simp
next
  case (walk_read_error matchedLength n e err)
  then show ?case by (subst getNodeLoop.simps) simp
next
  case (walk_descend matchedLength n e n' res)
  from walk_descend.IH [OF refl] walk_descend.hyps(1-4) walk_descend.prems
  show ?case by (subst getNodeLoop.simps) simp
qed

lemma getNodeLoop_imp_walk:
  assumes "getNodeLoop c lb r key' n ck = Some res"
  shows "walk c lb r key' n (length_k ck) res"
proof (rule getNodeLoop.raw_induct
    [where P = "\<lambda>c lb r key' n ck res. walk c lb r key' n (length_k ck) res", OF _ assms],
    goal_cases)
  case (1 loop c lb r key' currentNode currentNodeKey res)
  show ?case
  proof (cases "length_k currentNodeKey < length_k key'")
    case False
    with 1(2) show ?thesis by (auto intro: walk_done)
  next
    case lt: True
    show ?thesis
    proof (cases "map_of (children currentNode)
                    (Token lb key' (length_k currentNodeKey) (tokenSize r))")
      case None
      with 1(2) lt show ?thesis by (auto intro: walk_no_child)
    next
      case (Some e)
      show ?thesis
      proof (cases "iteratedHasPrefix lb key' (compressedKey (child e))
                      (length_k currentNodeKey + tokenSize r) (tokenSize r)")
        case False
        with 1(2) lt Some show ?thesis by (auto intro: walk_mismatch)
      next
        case pre: True
        show ?thesis
        proof (cases "readNodeFromDisk c r (address e)")
          case (Inl err)
          with 1(2) lt Some pre show ?thesis by (auto intro: walk_read_error)
        next
          case (Inr n')
          with 1(2) lt Some pre have
            "loop c lb r key' n'
               (Take lb key' (length_k currentNodeKey + tokenSize r
                              + length_k (compressedKey (child e)))) = Some res"
            by simp
          from 1(1) [OF this] lt Some pre Inr show ?thesis
            by (auto intro: walk_descend)
        qed
      qed
    qed
  qed
qed

lemma getNodeLoop_iff_walk:
  "getNodeLoop c lb r key' n ck = Some res \<longleftrightarrow> walk c lb r key' n (length_k ck) res"
  using getNodeLoop_imp_walk walk_imp_getNodeLoop by blast



lemma set_update_subset: "set (AList.update k v al) \<subseteq> insert (k, v) (set al)"
  by (induction al) auto

lemma nonNegativeKeys_update:
  "nonNegativeKeys cs \<Longrightarrow> 0 \<le> length_k (compressedKey (child e)) \<Longrightarrow>
   nonNegativeKeys (AList.update k e cs)"
  using set_update_subset [of k e cs] by (auto simp: nonNegativeKeys_def)

lemma decodeChildren_nonNegativeKeys:
  "\<forall>b k rest. rKey c b = Inr (k, rest) \<longrightarrow> 0 \<le> length_k k \<Longrightarrow>
   decodeChildren c N i prev b cs = Inr (rest, cs') \<Longrightarrow> nonNegativeKeys cs \<Longrightarrow>
   nonNegativeKeys cs'"
proof (induction c N i prev b cs rule: decodeChildren.induct)
  case (1 c numChildren i previousChild b cs)
  show ?case
  proof (cases "i < numChildren")
    case False
    with "1.prems" show ?thesis by (simp add: decodeChildren.simps [of c numChildren i])
  next
    case True
    note rk = "1.prems"(1)
    from "1.prems"(2) True obtain index b1 ck b2 cid b3 hv b4 off b5 sz b6 where
      r: "rUvarint c b = Inr (index, b1)" "rKey c b1 = Inr (ck, b2)" "rID c b2 = Inr (cid, b3)"
         "rBool c b3 = Inr (hv, b4)" "rUvarint c b4 = Inr (off, b5)" "rUvarint c b5 = Inr (sz, b6)"
      and chk: "\<not> ((i \<noteq> 0 \<and> index \<le> previousChild) \<or> index > 255)"
      and rec: "decodeChildren c numChildren (i + 1) index b6
          (AList.update (ucast index)
             \<lparr>child = \<lparr>compressedKey = ck, id' = cid, hasValue = hv\<rparr>,
              address = \<lparr>offset = off, size' = sz\<rparr>\<rparr> cs) = Inr (rest, cs')"
      by (subst (asm) decodeChildren.simps) (auto split: sum.splits prod.splits if_splits)
    from rk r(2) have "0 \<le> length_k ck" by blast
    with "1.prems"(3) have "nonNegativeKeys (AList.update (ucast index)
             \<lparr>child = \<lparr>compressedKey = ck, id' = cid, hasValue = hv\<rparr>,
              address = \<lparr>offset = off, size' = sz\<rparr>\<rparr> cs)"
      by (intro nonNegativeKeys_update) simp_all
    with "1.IH" [OF True r(1) refl chk r(2) refl r(3) refl r(4) refl r(5) refl r(6) refl rk rec]
    show ?thesis by simp
  qed
qed

lemma readNodeFromDisk_nonNegativeKeys:
  assumes rk: "\<forall>b k rest. rKey c b = Inr (k, rest) \<longrightarrow> 0 \<le> length_k k"
    and rd: "readNodeFromDisk c r a = Inr n"
  shows "nonNegativeKeys (children n)"
proof -
  from rd obtain bs where "decodeDiskBranchNode c bs = Inr n"
    by (auto simp: readNodeFromDisk_def split: if_splits sum.splits)
  then obtain N b2 rest where "decodeChildren c N 0 0 b2 [] = Inr (rest, children n)"
    by (auto simp: decodeDiskBranchNode_def split: sum.splits prod.splits if_splits)
  from decodeChildren_nonNegativeKeys [OF rk this] show ?thesis
    by (simp add: nonNegativeKeys_def)
qed

lemma getNodeLoop_returns:
  assumes wp: "walkProgress c lb r"
  shows "0 \<le> length_k ck \<Longrightarrow> nonNegativeKeys (children n) \<Longrightarrow>
         \<exists>res. getNodeLoop c lb r key' n ck = Some res"
proof (induction "nat (length_k key' - length_k ck)" arbitrary: n ck rule: less_induct)
  case less
  from wp have ts: "1 \<le> tokenSize r"
    and tk: "\<And>k n. 0 \<le> n \<Longrightarrow> length_k (Take lb k n) = min n (length_k k)"
    and rk: "\<forall>b k rest. rKey c b = Inr (k, rest) \<longrightarrow> 0 \<le> length_k k"
    by (simp_all add: walkProgress_def)
  show ?case
  proof (cases "length_k ck < length_k key'")
    case False
    then show ?thesis by (subst getNodeLoop.simps) simp
  next
    case lt: True
    show ?thesis
    proof (cases "map_of (children n) (Token lb key' (length_k ck) (tokenSize r))")
      case None
      with lt show ?thesis by (subst getNodeLoop.simps) simp
    next
      case (Some e)
      show ?thesis
      proof (cases "iteratedHasPrefix lb key' (compressedKey (child e))
                      (length_k ck + tokenSize r) (tokenSize r)")
        case False
        with lt Some show ?thesis by (subst getNodeLoop.simps) simp
      next
        case pre: True
        show ?thesis
        proof (cases "readNodeFromDisk c r (address e)")
          case (Inl err)
          with lt Some pre show ?thesis by (subst getNodeLoop.simps) simp
        next
          case (Inr n')
          let ?m = "length_k ck + tokenSize r + length_k (compressedKey (child e))"
          let ?ck' = "Take lb key' ?m"
          from Some have "(Token lb key' (length_k ck) (tokenSize r), e) \<in> set (children n)"
            by (rule map_of_SomeD)
          with less.prems(2) have ck0: "0 \<le> length_k (compressedKey (child e))"
            by (auto simp: nonNegativeKeys_def)
          with less.prems(1) ts have m: "length_k ck < ?m" "0 \<le> ?m" by simp_all
          with tk [of ?m key'] lt less.prems(1) have l': "length_k ck < length_k ?ck'" "0 \<le> length_k ?ck'"
            by simp_all
          with lt have dec: "nat (length_k key' - length_k ?ck') < nat (length_k key' - length_k ck)"
            by simp
          from readNodeFromDisk_nonNegativeKeys [OF rk Inr]
          have "nonNegativeKeys (children n')" .
          from less.hyps [OF dec l'(2) this] obtain res where
            "getNodeLoop c lb r key' n' ?ck' = Some res" by blast
          with lt Some pre Inr show ?thesis by (subst getNodeLoop.simps) simp
        qed
      qed
    qed
  qed
qed


lemma specLib_progress: "walkProgress specCodec specLib testDisk"
  by (auto simp: walkProgress_def specLib_def specCodec_def testDisk_def specTake_def
      specKeyR_def Let_def split: sum.splits if_splits)



section \<open>The batch writer faults\<close>

lemma setupNode_faults: "setupNode c lb grow r st kc = Inl (Panic NilPointerDereference)"
  by (simp add: setupNode_def setValue_def Let_def)

lemma setupLoop_faults:
  "changes \<noteq> [] \<Longrightarrow> setupLoop c lb grow r st changes = Inl (Panic NilPointerDereference)"
  by (cases changes) (simp_all add: setupNode_faults)

lemma addChildren_faults:
  "addChildren lb r key' dbn (x # xs) (h, None, c2p) = Inl (Panic NilMapAssignment)"
  by (cases x) (simp add: newDiskChild_def)

lemma sint_length: "n < 2 ^ 63 \<Longrightarrow> sint (of_nat n :: int64) = int n"
proof -
  assume "n < 2 ^ 63"
  then have "int n < 2 ^ 63" by (metis of_nat_less_iff of_nat_numeral of_nat_power)
  then show ?thesis
    by (simp add: signed_of_nat signed_take_bit_int_eq_self)
qed

text \<open>
  C4. On every batch with at least one node \<open>writeChanges\<close> panics in the first iteration
  of its set-up loop, writing \<open>dbn.value\<close> through the nil pointer \<open>dbn\<close>; the file is left
  as it was. The inner loop assigns into the nil map \<open>diskChildren\<close> and panics as well on
  any node with a child. Hence \<open>writeChanges\<close> returns success only on the empty batch (on
  which it does succeed, leaving the file unchanged).
\<close>

theorem writeChanges_faults_unless_empty:
  "(changes \<noteq> [] \<longrightarrow>
      writeChanges c lb grow r changes = Some (file' r, Some (Panic NilPointerDereference)))
   \<and> (\<forall>f. writeChanges c lb grow r changes = Some (f, None) \<longrightarrow> changes = [])
   \<and> (\<forall>key' dbn x xs h c2p.
         addChildren lb r key' dbn (x # xs) (h, None, c2p) = Inl (Panic NilMapAssignment))
   \<and> (length (file' r) < 2 ^ 63 \<longrightarrow> writeChanges c lb grow r [] = Some (file' r, None))"
proof -
  have a: "changes \<noteq> [] \<Longrightarrow>
      writeChanges c lb grow r changes = Some (file' r, Some (Panic NilPointerDereference))"
    by (simp add: writeChanges_def Let_def setupLoop_faults)
  have b: "writeChanges c lb grow r changes = Some (f, None) \<Longrightarrow> changes = []" for f
    using a by (cases "changes = []") simp_all
  have d: "length (file' r) < 2 ^ 63 \<Longrightarrow> writeChanges c lb grow r [] = Some (file' r, None)"
    by (simp add: writeChanges_def Let_def sint_length Truncate_def makeSlice_def
        frontierLoop.simps)
  from a b d addChildren_faults show ?thesis by blast
qed


theorem writeChanges_faults_unless_empty_witness:
  "rootLeafBatch \<noteq> []
   \<and> writeChanges specCodec specLib growDouble freshDisk rootLeafBatch
       = Some (file' freshDisk, Some (Panic NilPointerDereference))
   \<and> fourNodeBatch \<noteq> []
   \<and> writeChanges specCodec specLib growDouble freshDisk fourNodeBatch
       = Some (file' freshDisk, Some (Panic NilPointerDereference))
   \<and> length (file' freshDisk) < 2 ^ 63
   \<and> writeChanges specCodec specLib growDouble freshDisk [] = Some (file' freshDisk, None)"
proof -
  have h1: "rootLeafBatch \<noteq> []" by (simp add: rootLeafBatch_def)
  have h2: "fourNodeBatch \<noteq> []" by (simp add: fourNodeBatch_def)
  have h3: "length (file' freshDisk) < 2 ^ 63" by (simp add: freshDisk_def freshFile_def)
  from h1 h2 h3
    writeChanges_faults_unless_empty [of rootLeafBatch specCodec specLib growDouble freshDisk]
    writeChanges_faults_unless_empty [of fourNodeBatch specCodec specLib growDouble freshDisk]
    writeChanges_faults_unless_empty [of "[]" specCodec specLib growDouble freshDisk]
  show ?thesis by blast
qed


section \<open>What the batch writer leaves on disk\<close>

lemma writeChanges_returns_file:
  assumes "writeChanges c lb grow r changes = Some (f, e)"
    and "length (file' r) < 2 ^ 63"
  shows "f = file' r"
proof (cases "changes = []")
  case True
  from assms(2) have "writeChanges c lb grow r [] = Some (file' r, None)"
    by (simp add: writeChanges_def Let_def sint_length Truncate_def makeSlice_def
        frontierLoop.simps)
  with assms(1) True show ?thesis by simp
next
  case False
  then have "writeChanges c lb grow r changes
               = Some (file' r, Some (Panic NilPointerDereference))"
    by (simp add: writeChanges_def Let_def setupLoop_faults)
  with assms(1) show ?thesis by simp
qed

lemma writeChanges_returns:
  assumes "length (file' r) < 2 ^ 63"
  shows "\<exists>f e. writeChanges c lb grow r changes = Some (f, e)"
proof (cases "changes = []")
  case True
  from assms have "writeChanges c lb grow r [] = Some (file' r, None)"
    by (simp add: writeChanges_def Let_def sint_length Truncate_def makeSlice_def
        frontierLoop.simps)
  with True show ?thesis by blast
next
  case False
  then have "writeChanges c lb grow r changes
               = Some (file' r, Some (Panic NilPointerDereference))"
    by (simp add: writeChanges_def Let_def setupLoop_faults)
  then show ?thesis by blast
qed

lemma readNodeFromDisk_past_end:
  assumes "int (length (file' r)) \<le> sint (offset a)" and "0 < sint (size' a)"
  shows "\<exists>err. readNodeFromDisk c r a = Inl err"
proof (cases "maxAlloc < sint (size' a)")
  case True
  then show ?thesis by (simp add: readNodeFromDisk_def)
next
  case False
  from assms have "ReadAt (file' r) (nat (sint (size' a))) (sint (offset a)) = Inl ErrIO"
    by (simp add: ReadAt_def)
  with False assms(2) show ?thesis by (simp add: readNodeFromDisk_def)
qed





end
